theory Spec2Isabelle
  imports Complex_Main
begin

section \<open>Values held by the ingredient model\<close>

text \<open>
  The recipe card keeps its ingredients in a \<^verbatim>\<open>Gtk.TreeStore\<close> of five columns.
  Column 0 holds a Python object that doubles as the row's persistent reference:
  a string \<^verbatim>\<open>"GROUP name"\<close> for a group header, an integer placeholder for an
  ingredient that was never saved, a \<^verbatim>\<open>RecRef\<close> for a recipe used as an ingredient,
  or the database row object of a saved ingredient. Columns 1 to 3 are text
  (amount, unit, item) and column 4 is the boolean "optional".

  \<open>VRecRef\<close> carries an object identity besides its two fields, because the class
  \<^verbatim>\<open>RecRef\<close> defines no \<^verbatim>\<open>__eq__\<close>: two references are equal only when they are the
  same object. \<open>VIng\<close> is a database row object, given by its attributes; such rows
  compare by value. Python's \<^verbatim>\<open>==\<close> is HOL equality on these values. Python also
  identifies \<^verbatim>\<open>True\<close>, \<^verbatim>\<open>1\<close> and \<^verbatim>\<open>1.0\<close>, in \<^verbatim>\<open>==\<close> and as keys of a dictionary;
  that is not modelled. It would show in the test of the search loop, in the lookup in
  \<^verbatim>\<open>commited_items_converter\<close> and in the comparison of recipe ids, and there the
  values never mix the three types: column 0 holds strings, integer placeholders,
  \<^verbatim>\<open>RecRef\<close>s and row objects, and recipe ids are integers.
\<close>

datatype pyval =
    VNone
  | VBool bool
  | VInt int
  | VFloat rat
  | VStr string
  | VRecRef nat pyval pyval
  | VIng "(string \<times> pyval) list"

type_synonym dict = "(string \<times> pyval) list"

fun truthy :: "pyval \<Rightarrow> bool" where
  "truthy VNone = False"
| "truthy (VBool b) = b"
| "truthy (VInt i) = (i \<noteq> 0)"
| "truthy (VFloat r) = (r \<noteq> 0)"
| "truthy (VStr s) = (s \<noteq> [])"
| "truthy (VRecRef k r t) = True"
| "truthy (VIng a) = True"

fun is_str :: "pyval \<Rightarrow> bool" where
  "is_str (VStr s) = True"
| "is_str v = False"

text \<open>\<^verbatim>\<open>isinstance(v, int)\<close>: in Python \<^verbatim>\<open>bool\<close> is a subclass of \<^verbatim>\<open>int\<close>.\<close>

fun is_int :: "pyval \<Rightarrow> bool" where
  "is_int (VInt i) = True"
| "is_int (VBool b) = True"
| "is_int v = False"

fun is_RecRef :: "pyval \<Rightarrow> bool" where
  "is_RecRef (VRecRef k r t) = True"
| "is_RecRef v = False"

text \<open>
  Attribute access on a value. Only \<open>VRecRef\<close> (attributes \<^verbatim>\<open>refid\<close>, \<^verbatim>\<open>item\<close>,
  \<^verbatim>\<open>amount\<close>, set by \<^verbatim>\<open>RecRef.__init__\<close>) and database rows have the attributes the
  controller reads; on anything else the access raises \<^verbatim>\<open>AttributeError\<close>, here \<open>None\<close>.
\<close>

fun getattr :: "pyval \<Rightarrow> string \<Rightarrow> pyval option" where
  "getattr (VIng a) att = map_of a att"
| "getattr (VRecRef k r t) att =
     (if att = ''refid'' then Some r
      else if att = ''item'' then Some t
      else if att = ''amount'' then Some (VInt 1)
      else None)"
| "getattr v att = None"

definition hasattr :: "pyval \<Rightarrow> string \<Rightarrow> bool" where
  "hasattr v att = (getattr v att \<noteq> None)"

subsection \<open>Dictionaries\<close>

text \<open>
  A Python \<^verbatim>\<open>dict\<close> with string keys, as an association list in insertion order:
  \<^verbatim>\<open>d[k] = v\<close> replaces the value of a present key in place and appends a new key,
  \<^verbatim>\<open>del d[k]\<close> removes the key, \<^verbatim>\<open>if d:\<close> tests for a non-empty dictionary.
\<close>

fun dict_set :: "('k \<times> 'v) list \<Rightarrow> 'k \<Rightarrow> 'v \<Rightarrow> ('k \<times> 'v) list" where
  "dict_set [] k v = [(k, v)]"
| "dict_set ((k', v') # d) k v = (if k' = k then (k, v) # d else (k', v') # dict_set d k v)"

definition dict_del :: "dict \<Rightarrow> string \<Rightarrow> dict" where
  "dict_del d k = filter (\<lambda>kv. fst kv \<noteq> k) d"

definition dict_has :: "dict \<Rightarrow> string \<Rightarrow> bool" where
  "dict_has d k = (map_of d k \<noteq> None)"

text \<open>\<^verbatim>\<open>d.get(k)\<close>: the value, or \<^verbatim>\<open>None\<close> for a missing key.\<close>

definition dict_get :: "dict \<Rightarrow> string \<Rightarrow> pyval" where
  "dict_get d k = (case map_of d k of Some v \<Rightarrow> v | None \<Rightarrow> VNone)"

text \<open>
  \<^verbatim>\<open>hasattr(d, att)\<close> on a dictionary object asks for an \<^emph>\<open>attribute\<close> of the
  \<^verbatim>\<open>dict\<close> type, not for a key. The attributes of a \<^verbatim>\<open>dict\<close> are its methods and the
  special names the type defines or inherits from \<^verbatim>\<open>object\<close> (Python 3.11).
\<close>

definition dict_methods :: "string list" where
  "dict_methods = [''clear'', ''copy'', ''fromkeys'', ''get'', ''items'', ''keys'',
                   ''pop'', ''popitem'', ''setdefault'', ''update'', ''values'']"

definition dict_special :: "string list" where
  "dict_special =
     [''__class__'', ''__class_getitem__'', ''__contains__'', ''__delattr__'',
      ''__delitem__'', ''__dir__'', ''__doc__'', ''__eq__'', ''__format__'', ''__ge__'',
      ''__getattribute__'', ''__getitem__'', ''__getstate__'', ''__gt__'', ''__hash__'',
      ''__init__'', ''__init_subclass__'', ''__ior__'', ''__iter__'', ''__le__'',
      ''__len__'', ''__lt__'', ''__ne__'', ''__new__'', ''__or__'', ''__reduce__'',
      ''__reduce_ex__'', ''__repr__'', ''__reversed__'', ''__ror__'', ''__setattr__'',
      ''__setitem__'', ''__sizeof__'', ''__str__'', ''__subclasshook__'']"

definition hasattr_dict :: "dict \<Rightarrow> string \<Rightarrow> bool" where
  "hasattr_dict d att = (att \<in> set dict_methods \<or> att \<in> set dict_special)"

section \<open>The tree store\<close>

text \<open>
  A row has its five cells and its child rows; the store is the list of top-level
  rows. A \<^verbatim>\<open>Gtk.TreeIter\<close> is modelled by the path of the row it designates (the
  indices from the top level down), and \<^verbatim>\<open>None\<close> by \<open>None\<close>. A path stays a faithful
  iterator as long as no row is inserted or removed before it is used; the functions
  below use every iterator before the next change of structure, except where noted.
\<close>

datatype row = Row (c0: pyval) (c1: pyval) (c2: pyval) (c3: pyval) (c4: pyval)
                   (children: "row list")

type_synonym path = "nat list"

text \<open>A fresh row: object and text cells are \<^verbatim>\<open>None\<close>, the boolean cell is \<^verbatim>\<open>False\<close>.\<close>

definition new_row :: row where
  "new_row = Row VNone VNone VNone VNone (VBool False) []"

fun get_row :: "row list \<Rightarrow> path \<Rightarrow> row option" where
  "get_row rs [] = None"
| "get_row rs [i] = (if i < length rs then Some (rs ! i) else None)"
| "get_row rs (i # j # p) =
     (if i < length rs then get_row (children (rs ! i)) (j # p) else None)"

definition set_children :: "row \<Rightarrow> row list \<Rightarrow> row" where
  "set_children r ks = Row (c0 r) (c1 r) (c2 r) (c3 r) (c4 r) ks"

text \<open>
  \<open>upd_level f rs p\<close> applies \<open>f\<close> to the list of children of the row at \<open>p\<close>
  (to the top level for the empty path).
\<close>

fun upd_level :: "(row list \<Rightarrow> row list) \<Rightarrow> row list \<Rightarrow> path \<Rightarrow> row list" where
  "upd_level f rs [] = f rs"
| "upd_level f rs (i # p) =
     (if i < length rs
      then rs[i := set_children (rs ! i) (upd_level f (children (rs ! i)) p)]
      else rs)"

definition cell :: "row \<Rightarrow> nat \<Rightarrow> pyval" where
  "cell r n = (if n = 0 then c0 r else if n = 1 then c1 r else if n = 2 then c2 r
               else if n = 3 then c3 r else c4 r)"

definition set_cell :: "nat \<Rightarrow> pyval \<Rightarrow> row \<Rightarrow> row" where
  "set_cell n v r =
     (if n = 0 then Row v (c1 r) (c2 r) (c3 r) (c4 r) (children r)
      else if n = 1 then Row (c0 r) v (c2 r) (c3 r) (c4 r) (children r)
      else if n = 2 then Row (c0 r) (c1 r) v (c3 r) (c4 r) (children r)
      else if n = 3 then Row (c0 r) (c1 r) (c2 r) v (c4 r) (children r)
      else Row (c0 r) (c1 r) (c2 r) (c3 r) v (children r))"

text \<open>\<^verbatim>\<open>model.get_value(iter, n)\<close>; an iterator always designates a row.\<close>

definition get_value :: "row list \<Rightarrow> path \<Rightarrow> nat \<Rightarrow> pyval" where
  "get_value t p n = (case get_row t p of Some r \<Rightarrow> cell r n | None \<Rightarrow> VNone)"

definition set_value :: "row list \<Rightarrow> path \<Rightarrow> nat \<Rightarrow> pyval \<Rightarrow> row list" where
  "set_value t p n v =
     (if p = [] then t
      else upd_level (\<lambda>rs. if last p < length rs
                            then rs[last p := set_cell n v (rs ! last p)] else rs)
             t (butlast p))"

definition get_iter_first :: "row list \<Rightarrow> path option" where
  "get_iter_first t = (if t = [] then None else Some [0])"

definition iter_children :: "row list \<Rightarrow> path \<Rightarrow> path option" where
  "iter_children t p =
     (case get_row t p of
        Some r \<Rightarrow> if children r = [] then None else Some (p @ [0])
      | None \<Rightarrow> None)"

definition iter_next :: "row list \<Rightarrow> path \<Rightarrow> path option" where
  "iter_next t p =
     (if p = [] then None
      else case get_row t (butlast p @ [Suc (last p)]) of
             Some r \<Rightarrow> Some (butlast p @ [Suc (last p)])
           | None \<Rightarrow> None)"

definition iter_parent :: "row list \<Rightarrow> path \<Rightarrow> path option" where
  "iter_parent t p = (if length p \<le> 1 then None else Some (butlast p))"

text \<open>
  \<^verbatim>\<open>append(parent)\<close>, \<^verbatim>\<open>prepend(None)\<close> and \<^verbatim>\<open>insert_after(None, sibling)\<close> add a
  fresh row and return its iterator. \<^verbatim>\<open>insert_after\<close> puts the row behind
  \<open>sibling\<close>, among the siblings of \<open>sibling\<close>, whatever the depth of \<open>sibling\<close>.
\<close>

definition store_append :: "row list \<Rightarrow> path option \<Rightarrow> row list \<times> path" where
  "store_append t parent =
     (case parent of
        None \<Rightarrow> (t @ [new_row], [length t])
      | Some p \<Rightarrow>
          (upd_level (\<lambda>rs. rs @ [new_row]) t p,
           p @ [case get_row t p of Some r \<Rightarrow> length (children r) | None \<Rightarrow> 0]))"

definition store_prepend :: "row list \<Rightarrow> row list \<times> path" where
  "store_prepend t = (new_row # t, [0])"

definition store_insert_after :: "row list \<Rightarrow> path \<Rightarrow> row list \<times> path" where
  "store_insert_after t sibling =
     (upd_level (\<lambda>rs. take (Suc (last sibling)) rs @ [new_row] @ drop (Suc (last sibling)) rs)
        t (butlast sibling),
      butlast sibling @ [Suc (last sibling)])"

definition store_remove :: "row list \<Rightarrow> path \<Rightarrow> row list" where
  "store_remove t p =
     (if p = [] then t
      else upd_level (\<lambda>rs. take (last p) rs @ drop (Suc (last p)) rs) t (butlast p))"

text \<open>
  The iterators of a \<^verbatim>\<open>Gtk.TreeStore\<close> persist: an iterator taken before a row is
  inserted or removed elsewhere designates the same row afterwards. A path does not,
  so where the code keeps an iterator across such a change the model follows the row.
  \<open>after_insert q p\<close> is the path of the row that was at \<open>p\<close> once a row has been
  inserted at \<open>q\<close>, and \<open>after_remove q p\<close> the path of the row that was at \<open>p\<close> once
  the row at \<open>q\<close> has been removed: \<open>None\<close> for that row and for the rows below it,
  whose iterators are no longer valid.
\<close>

definition after_insert :: "path \<Rightarrow> path \<Rightarrow> path" where
  "after_insert q p =
     (let n = length q - 1
      in if q \<noteq> [] \<and> n < length p \<and> take n p = butlast q \<and> last q \<le> p ! n
         then p[n := Suc (p ! n)]
         else p)"

definition after_remove :: "path \<Rightarrow> path \<Rightarrow> path option" where
  "after_remove q p =
     (let n = length q - 1
      in if q = [] then Some p
         else if take (length q) p = q then None
         else if n < length p \<and> take n p = butlast q \<and> last q < p ! n
         then Some (p[n := p ! n - 1])
         else Some p)"

subsection \<open>Rows in display order\<close>

text \<open>
  \<open>count_rows\<close> counts the rows of a forest, \<open>pre_index\<close> the rows that come before
  a given row when the tree is read top to bottom with every group unfolded.
\<close>

fun count_rows :: "row list \<Rightarrow> nat" where
  "count_rows [] = 0"
| "count_rows (Row a b c d e ks # rs) = Suc (count_rows ks + count_rows rs)"

fun pre_index :: "row list \<Rightarrow> path \<Rightarrow> nat" where
  "pre_index rs [] = 0"
| "pre_index rs [i] = count_rows (take i rs)"
| "pre_index rs (i # j # p) =
     count_rows (take i rs) + Suc (pre_index (children (rs ! i)) (j # p))"

lemma count_rows_append: "count_rows (xs @ ys) = count_rows xs + count_rows ys"
  by (induction xs rule: count_rows.induct) auto

lemma count_rows_single: "count_rows [r] = Suc (count_rows (children r))"
  by (cases r) simp

lemma count_rows_take_Suc:
  "i < length rs \<Longrightarrow>
   count_rows (take (Suc i) rs) = count_rows (take i rs) + Suc (count_rows (children (rs ! i)))"
  by (simp add: take_Suc_conv_app_nth count_rows_append count_rows_single)

lemma count_rows_take_le: "count_rows (take i rs) \<le> count_rows rs"
proof -
  have "count_rows rs = count_rows (take i rs) + count_rows (drop i rs)"
    by (metis append_take_drop_id count_rows_append)
  then show ?thesis by simp
qed

lemma get_row_Cons:
  "get_row rs (i # p) =
     (if i < length rs then (if p = [] then Some (rs ! i) else get_row (children (rs ! i)) p)
      else None)"
  by (cases p) auto

lemma pre_index_Cons:
  "pre_index rs (i # p) =
     count_rows (take i rs) + (if p = [] then 0 else Suc (pre_index (children (rs ! i)) p))"
  by (cases p) auto

lemma get_row_snoc:
  "get_row rs p = Some r \<Longrightarrow>
   get_row rs (p @ [j]) = (if j < length (children r) then Some (children r ! j) else None)"
  by (induction rs p rule: get_row.induct) (auto split: if_splits)

lemma get_row_butlast:
  "get_row rs p = Some r \<Longrightarrow> 2 \<le> length p \<Longrightarrow> \<exists>q. get_row rs (butlast p) = Some q"
proof (induction p arbitrary: rs r)
  case Nil
  then show ?case by simp
next
  case (Cons i p)
  show ?case
  proof (cases "2 \<le> length p")
    case True
    with Cons show ?thesis by (auto simp: get_row_Cons split: if_splits)
  next
    case False
    from False Cons.prems(2) have "length p = 1" by simp
    then obtain j where "p = [j]" by (cases p) auto
    with Cons.prems show ?thesis by (auto split: if_splits)
  qed
qed

lemma pre_index_snoc:
  "get_row rs p = Some r \<Longrightarrow>
   pre_index rs (p @ [j]) = Suc (pre_index rs p + count_rows (take j (children r)))"
proof (induction p arbitrary: rs r)
  case Nil
  then show ?case by simp
next
  case (Cons i p)
  then show ?case by (cases p) (auto simp: get_row_Cons pre_index_Cons split: if_splits)
qed

lemma pre_index_bound:
  "get_row rs p = Some r \<Longrightarrow> pre_index rs p + count_rows [r] \<le> count_rows rs"
proof (induction rs p arbitrary: r rule: get_row.induct)
  case (1 rs)
  then show ?case by simp
next
  case (2 rs i)
  then have i: "i < length rs" and r: "r = rs ! i" by (auto split: if_splits)
  have "count_rows (take (Suc i) rs) \<le> count_rows rs" by (rule count_rows_take_le)
  with i r show ?case by (simp add: count_rows_take_Suc count_rows_single)
next
  case (3 rs i j p)
  then have i: "i < length rs" and g: "get_row (children (rs ! i)) (j # p) = Some r"
    by (auto split: if_splits)
  from 3 i g have "pre_index (children (rs ! i)) (j # p) + count_rows [r]
      \<le> count_rows (children (rs ! i))" by simp
  moreover have "count_rows (take (Suc i) rs) \<le> count_rows rs" by (rule count_rows_take_le)
  ultimately show ?case using i by (simp add: count_rows_take_Suc)
qed

lemma pre_index_next:
  "get_row rs p = Some r \<Longrightarrow>
   pre_index rs (butlast p @ [Suc (last p)]) = pre_index rs p + count_rows [r]"
proof (induction p arbitrary: rs r)
  case Nil
  then show ?case by simp
next
  case (Cons i p)
  show ?case
  proof (cases p)
    case Nil
    with Cons.prems show ?thesis
      by (auto split: if_splits simp: count_rows_take_Suc count_rows_single)
  next
    case (Cons j q)
    with Cons.prems have g: "get_row (children (rs ! i)) p = Some r"
      by (auto split: if_splits)
    have "pre_index (children (rs ! i)) (butlast p @ [Suc (last p)])
      = pre_index (children (rs ! i)) p + count_rows [r]" by (rule Cons.IH [OF g])
    with Cons show ?thesis by (simp add: pre_index_Cons)
  qed
qed

section \<open>What the controller uses from other modules\<close>

text \<open>
  The backing store \<^verbatim>\<open>rd\<close> (module \<^verbatim>\<open>backends.db\<close>), \<^verbatim>\<open>parse_range\<close> (module
  \<^verbatim>\<open>importers.importer\<close>) and the helpers of \<^verbatim>\<open>treeview_extras\<close> are not among
  the sources. The store is modelled by the list of the calls made to it, and
  what these functions return is a parameter:
  \<^item> \<open>parse_range\<close>: the pair (amount, rangeamount) read from a text, \<open>None\<close> when it raises;
  \<^item> \<open>row_equal\<close>: \<^verbatim>\<open>rd.row_equal\<close>;
  \<^item> \<open>get_amount_as_string\<close>: \<^verbatim>\<open>rd.get_amount_as_string\<close>;
  \<^item> \<open>add_ing_and_update_keydic\<close>: the row object the store returns for a new
    ingredient, given the calls made so far and the dictionary passed;
  \<^item> \<open>path_next\<close>: \<^verbatim>\<open>te.path_next(path, -1)\<close>, the path of the previous sibling;
  \<^item> \<open>py_repr\<close>: \<^verbatim>\<open>str()\<close> of a number or of an object.
\<close>

datatype dbcall =
    Add_ing dict
  | Modify_ing pyval dict
  | Modify_ings "pyval list" dict

record extern =
  parse_range :: "pyval \<Rightarrow> (pyval \<times> pyval) option"
  row_equal :: "pyval \<Rightarrow> pyval \<Rightarrow> bool"
  get_amount_as_string :: "pyval \<Rightarrow> pyval"
  add_ing_and_update_keydic :: "dbcall list \<Rightarrow> dict \<Rightarrow> pyval"
  path_next :: "path \<Rightarrow> path option"
  py_repr :: "pyval \<Rightarrow> string"

definition py_str :: "extern \<Rightarrow> pyval \<Rightarrow> string" where
  "py_str ext v =
     (case v of
        VStr s \<Rightarrow> s
      | VNone \<Rightarrow> ''None''
      | VBool b \<Rightarrow> (if b then ''True'' else ''False'')
      | _ \<Rightarrow> py_repr ext v)"

subsection \<open>The walk over the tree ends\<close>

text \<open>
  The loop of \<^verbatim>\<open>get_iter_from_persistent_ref\<close> steps from a row to its first child,
  else to its next sibling, else to the next sibling of its parent. Every step moves
  forward in display order, so the number of rows that remain is a measure.
\<close>

definition walk_measure :: "row list \<Rightarrow> path option \<Rightarrow> nat" where
  "walk_measure t itr =
     (case itr of
        None \<Rightarrow> 0
      | Some p \<Rightarrow>
          (case get_row t p of
             None \<Rightarrow> count_rows t + 2
           | Some r \<Rightarrow> Suc (count_rows t - pre_index t p)))"

lemma walk_measure_None: "walk_measure t None = 0"
  by (simp add: walk_measure_def)

lemma walk_measure_pos: "0 < walk_measure t (Some p)"
  by (simp add: walk_measure_def split: option.split)

lemma walk_measure_valid_less:
  assumes "get_row t n = Some rn"
    and "\<And>r. get_row t p = Some r \<Longrightarrow> pre_index t p < pre_index t n"
  shows "walk_measure t (Some n) < walk_measure t (Some p)"
proof (cases "get_row t p")
  case None
  with assms(1) show ?thesis by (simp add: walk_measure_def)
next
  case (Some r)
  from pre_index_bound [OF assms(1)] have "pre_index t n < count_rows t"
    by (simp add: count_rows_single)
  moreover from assms(2) [OF Some] have "pre_index t p < pre_index t n" .
  ultimately show ?thesis using assms(1) Some by (simp add: walk_measure_def)
qed

lemma walk_children:
  assumes "iter_children t p = Some c"
  shows "walk_measure t (Some c) < walk_measure t (Some p)"
proof -
  from assms obtain r where r: "get_row t p = Some r" "children r \<noteq> []" "c = p @ [0]"
    by (auto simp: iter_children_def split: option.splits if_splits)
  then have "get_row t c = Some (children r ! 0)" by (simp add: get_row_snoc)
  moreover have "pre_index t c = Suc (pre_index t p)" using r by (simp add: pre_index_snoc)
  ultimately show ?thesis by (intro walk_measure_valid_less) auto
qed

lemma walk_next:
  assumes "iter_next t p = Some n"
  shows "walk_measure t (Some n) < walk_measure t (Some p)"
proof -
  from assms obtain rn where n: "n = butlast p @ [Suc (last p)]" "get_row t n = Some rn"
    by (auto simp: iter_next_def split: option.splits if_splits)
  show ?thesis
  proof (rule walk_measure_valid_less [OF n(2)])
    fix r assume "get_row t p = Some r"
    from pre_index_next [OF this] show "pre_index t p < pre_index t n"
      by (simp add: n count_rows_single)
  qed
qed

lemma pre_index_child_bound:
  assumes q: "get_row t q = Some rq" and p: "get_row t (q @ [j]) = Some r"
  shows "pre_index t (q @ [j]) + count_rows [r] \<le> pre_index t q + count_rows [rq]"
proof -
  from q p have j: "j < length (children rq)" and r: "r = children rq ! j"
    by (auto simp: get_row_snoc split: if_splits)
  have "count_rows (take (Suc j) (children rq)) \<le> count_rows (children rq)"
    by (rule count_rows_take_le)
  with j r show ?thesis
    by (simp add: pre_index_snoc [OF q] count_rows_take_Suc count_rows_single)
qed

lemma walk_parent:
  assumes "iter_parent t p = Some q"
  shows "walk_measure t (iter_next t q) < walk_measure t (Some p)"
proof (cases "iter_next t q")
  case None
  then show ?thesis using walk_measure_pos [of t p] by (simp add: walk_measure_def)
next
  case (Some n)
  from assms have q: "q = butlast p" and len: "2 \<le> length p"
    by (auto simp: iter_parent_def split: if_splits)
  from Some obtain rn where n: "n = butlast q @ [Suc (last q)]" "get_row t n = Some rn"
    by (auto simp: iter_next_def split: option.splits if_splits)
  have "walk_measure t (Some n) < walk_measure t (Some p)"
  proof (rule walk_measure_valid_less [OF n(2)])
    fix r assume r: "get_row t p = Some r"
    from get_row_butlast [OF r len] obtain rq where rq: "get_row t q = Some rq"
      by (auto simp: q)
    from len have pq: "p = q @ [last p]" by (cases p rule: rev_cases) (auto simp: q)
    from r pq have "get_row t (q @ [last p]) = Some r" by simp
    from pre_index_child_bound [OF rq this] pq
    have "pre_index t p + count_rows [r] \<le> pre_index t q + count_rows [rq]" by simp
    moreover from pre_index_next [OF rq]
    have "pre_index t n = pre_index t q + count_rows [rq]" by (simp add: n)
    ultimately show "pre_index t p < pre_index t n" by (simp add: count_rows_single)
  qed
  with Some show ?thesis by simp
qed

text \<open>
  The \<^verbatim>\<open>while itr:\<close> loop of \<^verbatim>\<open>get_iter_from_persistent_ref\<close>, from the iterator
  it has reached. A row matches when its column 0 equals the reference or
  \<^verbatim>\<open>rd.row_equal\<close> says so. From the last child of a row the loop goes to the next
  sibling of the parent, and stops when the parent has none, whatever lies above.
\<close>

function get_iter_loop :: "extern \<Rightarrow> row list \<Rightarrow> pyval \<Rightarrow> path option \<Rightarrow> path option" where
  "get_iter_loop ext t ref None = None"
| "get_iter_loop ext t ref (Some itr) =
     (let v = get_value t itr 0 in
      if v = ref \<or> row_equal ext v ref then Some itr
      else case iter_children t itr of
             Some child \<Rightarrow> get_iter_loop ext t ref (Some child)
           | None \<Rightarrow>
               (case iter_next t itr of
                  Some nxt \<Rightarrow> get_iter_loop ext t ref (Some nxt)
                | None \<Rightarrow>
                    (case iter_parent t itr of
                       Some parent \<Rightarrow> get_iter_loop ext t ref (iter_next t parent)
                     | None \<Rightarrow> get_iter_loop ext t ref None)))"
  by pat_completeness auto
termination
  by (relation "measure (\<lambda>(ext, t, ref, itr). walk_measure t itr)")
     (auto simp: walk_children walk_next walk_parent walk_measure_pos walk_measure_None)

declare get_iter_loop.simps [simp del]

section \<open>The ingredient controller\<close>

text \<open>
  The state of \<^verbatim>\<open>IngredientController\<close>: the tree store, the counter of placeholders,
  the table from old references to committed row objects, and the row objects the
  controller believes to be in the database. \<open>recref_count\<close> numbers the \<^verbatim>\<open>RecRef\<close>
  objects created so far (their identity). \<open>rd_calls\<close> lists the calls made to the
  backing store and \<open>expand_calls\<close> the rows the tree view was asked to expand.
\<close>

datatype error = AttributeError | ParseError | InvalidIter

record controller =
  imodel :: "row list"
  new_item_count :: int
  commited_items_converter :: "(pyval \<times> pyval) list"
  ingredient_objects :: "pyval list"
  recref_count :: nat
  rd_calls :: "dbcall list"
  expand_calls :: "path list"

text \<open>\<^verbatim>\<open>_new_iter_\<close>: the place of a new row.\<close>

definition new_iter :: "row list \<Rightarrow> path option \<Rightarrow> path option \<Rightarrow> bool \<Rightarrow> row list \<times> path" where
  "new_iter t group_iter prev_iter fallback_on_append =
     (let into_group = (case (group_iter, prev_iter) of
                          (Some g, None) \<Rightarrow> is_str (get_value t g 0)
                        | _ \<Rightarrow> False);
          prev_iter' = (case (group_iter, prev_iter) of
                          (Some g, None) \<Rightarrow> if is_str (get_value t g 0) then None else Some g
                        | _ \<Rightarrow> prev_iter);
          (t1, iter1) = (if into_group
                         then (let (t', i) = store_append t group_iter in (t', Some i))
                         else (t, None));
          (t2, iter2) = (case prev_iter' of
                           Some p \<Rightarrow> (let (t', i) = store_insert_after t1 p in (t', Some i))
                         | None \<Rightarrow> (t1, iter1))
      in case iter2 of
           Some i \<Rightarrow> (t2, i)
         | None \<Rightarrow> if fallback_on_append then store_append t2 None else store_prepend t2)"

text \<open>
  \<^verbatim>\<open>update_ingredient_row(iter, **d)\<close>: the keyword arguments \<^verbatim>\<open>amount\<close>, \<^verbatim>\<open>unit\<close>,
  \<^verbatim>\<open>item\<close> and \<^verbatim>\<open>optional\<close> default to \<^verbatim>\<open>None\<close>, so a missing key and a \<^verbatim>\<open>None\<close>
  value both leave the cell alone.
\<close>

definition update_ingredient_row :: "extern \<Rightarrow> row list \<Rightarrow> path \<Rightarrow> dict \<Rightarrow> row list" where
  "update_ingredient_row ext t iter d =
     (let amount = dict_get d ''amount'';
          unit = dict_get d ''unit'';
          item = dict_get d ''item'';
          optional = dict_get d ''optional'';
          t1 = (if amount \<noteq> VNone then set_value t iter 1 (VStr (py_str ext amount)) else t);
          t2 = (if unit \<noteq> VNone then set_value t1 iter 2 unit else t1);
          t3 = (if item \<noteq> VNone then set_value t2 iter 3 item else t2)
      in if optional \<noteq> VNone then set_value t3 iter 4 optional else t3)"

definition add_ingredient_from_kwargs ::
    "extern \<Rightarrow> controller \<Rightarrow> path option \<Rightarrow> path option \<Rightarrow> bool \<Rightarrow> pyval \<Rightarrow> dict
      \<Rightarrow> controller \<times> path" where
  "add_ingredient_from_kwargs ext s group_iter prev_iter fallback_on_append placeholder ingdict =
     (let (t, iter) = new_iter (imodel s) group_iter prev_iter fallback_on_append;
          s1 = (if dict_has ingdict ''refid'' \<and> truthy (dict_get ingdict ''refid'')
                then s\<lparr>imodel := set_value t iter 0
                                   (VRecRef (recref_count s) (dict_get ingdict ''refid'')
                                      (if dict_has ingdict ''item'' then dict_get ingdict ''item''
                                       else VStr [])),
                       recref_count := Suc (recref_count s)\<rparr>
                else if placeholder \<noteq> VNone
                then s\<lparr>imodel := set_value t iter 0 placeholder\<rparr>
                else s\<lparr>imodel := set_value t iter 0 (VInt (new_item_count s)),
                       new_item_count := new_item_count s + 1\<rparr>)
      in (s1\<lparr>imodel := update_ingredient_row ext (imodel s1) iter ingdict\<rparr>, iter))"

text \<open>
  \<^verbatim>\<open>add_ingredient\<close> reads \<^verbatim>\<open>i.unit\<close>, \<^verbatim>\<open>i.item\<close> and \<^verbatim>\<open>i.optional\<close>; an object
  without one of them raises \<^verbatim>\<open>AttributeError\<close>.
\<close>

definition add_ingredient ::
    "extern \<Rightarrow> controller \<Rightarrow> pyval \<Rightarrow> path option \<Rightarrow> path option \<Rightarrow> bool \<Rightarrow> bool
      \<Rightarrow> error + (controller \<times> path)" where
  "add_ingredient ext s ing prev_iter group_iter fallback_on_append is_undo =
     (let s0 = (if \<not> is_undo then s\<lparr>ingredient_objects := ingredient_objects s @ [ing]\<rparr> else s);
          (t, iter) = new_iter (imodel s0) group_iter prev_iter fallback_on_append;
          amt = get_amount_as_string ext ing
      in case getattr ing ''unit'' of
           None \<Rightarrow> Inl AttributeError
         | Some unit \<Rightarrow>
             (case getattr ing ''item'' of
                None \<Rightarrow> Inl AttributeError
              | Some item \<Rightarrow>
                  (case getattr ing ''optional'' of
                     None \<Rightarrow> Inl AttributeError
                   | Some optional \<Rightarrow>
                       Inr (s0\<lparr>imodel :=
                                 set_value
                                   (set_value
                                      (set_value
                                         (set_value (set_value t iter 0 ing) iter 1 amt)
                                         iter 2 unit)
                                      iter 3 item)
                                   iter 4 (VBool (truthy optional))\<rparr>,
                            iter))))"

text \<open>
  \<^verbatim>\<open>add_group\<close>. The loop \<^verbatim>\<open>while self.imodel.iter_parent(prev_iter)\<close> climbs from
  \<open>prev_iter\<close> to its top-level ancestor.
\<close>

function climb_to_top :: "row list \<Rightarrow> path \<Rightarrow> path" where
  "climb_to_top t prev_iter =
     (case iter_parent t prev_iter of
        Some parent \<Rightarrow> climb_to_top t parent
      | None \<Rightarrow> prev_iter)"
  by pat_completeness auto
termination
  by (relation "measure (\<lambda>(t, p). length p)") (auto simp: iter_parent_def split: if_splits)

declare climb_to_top.simps [simp del]

text \<open>
  \<open>add_group_row\<close> is \<^verbatim>\<open>add_group\<close> up to its loop over \<^verbatim>\<open>children_iters\<close>: it
  inserts the group row and sets its two cells.
\<close>

definition add_group_row ::
    "extern \<Rightarrow> row list \<Rightarrow> pyval \<Rightarrow> path option \<Rightarrow> bool \<Rightarrow> row list \<times> path" where
  "add_group_row ext t name prev_iter fallback_on_append =
     (let (t1, groupiter) =
            (case prev_iter of
               None \<Rightarrow> if fallback_on_append then store_append t None else store_prepend t
             | Some p \<Rightarrow> store_insert_after t (climb_to_top t p));
          t2 = set_value t1 groupiter 0 (VStr (''GROUP '' @ py_str ext name))
      in (set_value t2 groupiter 1 name, groupiter))"

text \<open>
  Modelled from the spec: \<^verbatim>\<open>te.move_iter\<close> belongs to \<^verbatim>\<open>gtk_extras.treeview_extras\<close>,
  which is not among the sources, and the specification names what it serves (rows
  are reordered and put into groups) without describing it. The model is the call that
  \<^verbatim>\<open>add_group\<close> makes, \<^verbatim>\<open>te.move_iter(model, c, None, parent=groupiter, direction="after")\<close>:
  the row of \<open>c\<close> leaves its place, with its cells and everything below it, and becomes
  the first child of \<open>parent\<close>. Moving a row into itself changes nothing. There is no
  result when \<open>c\<close> designates no row, or when \<open>parent\<close> lies below the row to move
  (with the fresh group row of \<^verbatim>\<open>add_group\<close> as parent that does not occur).
  \<open>iter_after_move\<close> follows an iterator of another row across the move; the row moved
  is removed and put in anew, so its old iterator and those of the rows below it are
  no longer valid.
\<close>

definition move_iter :: "row list \<Rightarrow> path \<Rightarrow> path \<Rightarrow> row list option" where
  "move_iter t c parent =
     (case get_row t c of
        None \<Rightarrow> None
      | Some r \<Rightarrow>
          if c = parent then Some t
          else (case after_remove c parent of
                  None \<Rightarrow> None
                | Some g \<Rightarrow> Some (upd_level (\<lambda>ks. r # ks) (store_remove t c) g)))"

definition iter_after_move :: "path \<Rightarrow> path \<Rightarrow> path \<Rightarrow> path option" where
  "iter_after_move c parent p =
     (if c = parent then Some p
      else case after_remove c parent of
             None \<Rightarrow> None
           | Some g \<Rightarrow> map_option (after_insert (g @ [0])) (after_remove c p))"

text \<open>
  The loop \<^verbatim>\<open>for c in children_iters\<close> of \<^verbatim>\<open>add_group\<close>. A child iterator is \<open>None\<close>
  when it designates no row: the caller passed \<^verbatim>\<open>None\<close> (\<^verbatim>\<open>get_path\<close> raises
  \<^verbatim>\<open>TypeError\<close> for it), or its row went away with a row moved before.
\<close>

fun move_children :: "row list \<Rightarrow> path \<Rightarrow> path option list \<Rightarrow> error + (row list \<times> path)" where
  "move_children t groupiter [] = Inr (t, groupiter)"
| "move_children t groupiter (None # cs) = Inl InvalidIter"
| "move_children t groupiter (Some c # cs) =
     (case move_iter t c groupiter of
        None \<Rightarrow> Inl InvalidIter
      | Some t' \<Rightarrow>
          (case iter_after_move c groupiter groupiter of
             None \<Rightarrow> Inl InvalidIter
           | Some g \<Rightarrow>
               move_children t' g
                 (map (\<lambda>x. case x of None \<Rightarrow> None
                                     | Some p \<Rightarrow> iter_after_move c groupiter p) cs)))"

text \<open>
  \<^verbatim>\<open>add_group\<close>. The iterators in \<^verbatim>\<open>children_iters\<close> were taken before the group row
  was inserted; the list is reversed and every row in it is moved into the group.
\<close>

definition add_group ::
    "extern \<Rightarrow> row list \<Rightarrow> pyval \<Rightarrow> path option \<Rightarrow> path option list \<Rightarrow> bool
      \<Rightarrow> error + (row list \<times> path)" where
  "add_group ext t name prev_iter children_iters fallback_on_append =
     (let (t3, groupiter) = add_group_row ext t name prev_iter fallback_on_append
      in move_children t3 groupiter
           (map (map_option (after_insert groupiter)) (rev children_iters)))"

subsection \<open>Row dictionaries and persistent references\<close>

text \<open>
  \<^verbatim>\<open>get_extra_ingredient_attributes\<close>: the key of the row object when it has a true
  one, else the item up to its first semicolon (\<^verbatim>\<open>item.split(";")[0]\<close>) when the item is
  not empty. Column 3 holds text or \<^verbatim>\<open>None\<close>.
\<close>

definition item_key :: "dict \<Rightarrow> dict" where
  "item_key ingdict =
     (case dict_get ingdict ''item'' of
        VStr s \<Rightarrow> if s \<noteq> [] then dict_set ingdict ''ingkey'' (VStr (takeWhile (\<lambda>c. c \<noteq> CHR '';'') s))
                  else ingdict
      | _ \<Rightarrow> ingdict)"

definition get_extra_ingredient_attributes :: "pyval \<Rightarrow> dict \<Rightarrow> dict" where
  "get_extra_ingredient_attributes ing_obj ingdict =
     (case getattr ing_obj ''ingkey'' of
        None \<Rightarrow> item_key ingdict
      | Some k \<Rightarrow> if \<not> truthy k then item_key ingdict else dict_set ingdict ''ingkey'' k)"

definition get_rowdict :: "row list \<Rightarrow> path \<Rightarrow> dict" where
  "get_rowdict t iter =
     get_extra_ingredient_attributes (get_value t iter 0)
       [(''amount'', get_value t iter 1), (''unit'', get_value t iter 2),
        (''item'', get_value t iter 3), (''optional'', get_value t iter 4)]"

definition get_persistent_ref_from_iter :: "row list \<Rightarrow> path \<Rightarrow> pyval" where
  "get_persistent_ref_from_iter t iter = get_value t iter 0"

definition get_persistent_ref_from_path :: "row list \<Rightarrow> path \<Rightarrow> pyval" where
  "get_persistent_ref_from_path t p = get_persistent_ref_from_iter t p"

text \<open>
  \<^verbatim>\<open>get_iter_from_persistent_ref\<close>: a reference that is a key of
  \<^verbatim>\<open>commited_items_converter\<close> is replaced by its committed object first (for an
  unhashable reference Python skips the lookup; the table only has integers and
  \<^verbatim>\<open>RecRef\<close>s as keys, so the lookup finds nothing for any other reference).
\<close>

definition converted :: "(pyval \<times> pyval) list \<Rightarrow> pyval \<Rightarrow> pyval" where
  "converted conv ref = (case map_of conv ref of Some r \<Rightarrow> r | None \<Rightarrow> ref)"

definition get_iter_from_persistent_ref :: "extern \<Rightarrow> controller \<Rightarrow> pyval \<Rightarrow> path option" where
  "get_iter_from_persistent_ref ext s ref =
     get_iter_loop ext (imodel s) (converted (commited_items_converter s) ref)
       (get_iter_first (imodel s))"

subsection \<open>Creating a group from the selection\<close>

text \<open>
  The action that \<^verbatim>\<open>IngredientTreeUI.ingNewGroupCB\<close> performs (its \<^verbatim>\<open>do_add_group\<close>).
  \<open>group_name\<close> is what the dialog returned and \<open>selected\<close> the iterators of the
  selected rows, in the order of the tree. The callback takes the references of the
  selected rows and of the last of them; the action resolves them again, so that
  \<^verbatim>\<open>prev_iter_ref and ...\<close> gives no \<open>prev_iter\<close> for a reference that is false in
  Python (nothing selected, or the placeholder 0). Last, the view is asked to expand
  the new row.
\<close>

definition new_group ::
    "extern \<Rightarrow> controller \<Rightarrow> pyval \<Rightarrow> path list \<Rightarrow> error + (controller \<times> path)" where
  "new_group ext s group_name selected =
     (let t = imodel s;
          selected_iter_refs = map (get_persistent_ref_from_iter t) selected;
          prev_iter_ref = (if selected = [] then VNone
                           else get_persistent_ref_from_iter t (last selected))
      in case add_group ext t group_name
                (if truthy prev_iter_ref then get_iter_from_persistent_ref ext s prev_iter_ref
                 else None)
                (map (get_iter_from_persistent_ref ext s) selected_iter_refs) True of
           Inl e \<Rightarrow> Inl e
         | Inr (t', itr) \<Rightarrow>
             Inr (s\<lparr>imodel := t', expand_calls := expand_calls s @ [itr]\<rparr>, itr))"

subsection \<open>Deleting rows and undoing the deletion\<close>

text \<open>
  \<^verbatim>\<open>_get_prev_path_\<close>: nothing for the first top-level row, the parent for any other
  first child, else the previous sibling (\<^verbatim>\<open>te.path_next(path, -1)\<close>).
\<close>

definition get_prev_path :: "extern \<Rightarrow> path \<Rightarrow> path option" where
  "get_prev_path ext p =
     (if last p = 0
      then (if length p = 1 then None else Some (butlast p))
      else path_next ext p)"

type_synonym child_info = "dict \<times> pyval \<times> pyval"

type_synonym undo_info = "dict \<times> pyval \<times> pyval \<times> child_info list \<times> bool"

definition get_undo_info_for_iter :: "extern \<Rightarrow> row list \<Rightarrow> path \<Rightarrow> child_info" where
  "get_undo_info_for_iter ext t iter =
     (let deleted_dic = get_rowdict t iter;
          prev_ref = (case get_prev_path ext iter of
                        Some prev_path \<Rightarrow> get_persistent_ref_from_path t prev_path
                      | None \<Rightarrow> VNone);
          ing_obj = get_value t iter 0
      in (deleted_dic, prev_ref, ing_obj))"

definition do_delete_iters :: "extern \<Rightarrow> controller \<Rightarrow> pyval list \<Rightarrow> controller" where
  "do_delete_iters ext s refs =
     fold (\<lambda>ref s. case get_iter_from_persistent_ref ext s ref of
                      None \<Rightarrow> s
                    | Some i \<Rightarrow> s\<lparr>imodel := store_remove (imodel s) i\<rparr>)
       refs s"

text \<open>
  \<^verbatim>\<open>delete_iters\<close> skips a row whose parent is deleted too, and records for every
  other row its reference and what is needed to bring it back: the row dictionary, the
  reference of the row before it, the object of column 0, the same three for each
  child (the loop over \<^verbatim>\<open>iter_children\<close> and \<^verbatim>\<open>iter_next\<close> visits the children in
  order), and whether the tree view shows the row expanded (\<open>row_expanded\<close>, view
  state). \<^verbatim>\<open>u.perform()\<close> then runs the action \<^verbatim>\<open>do_delete_iters(refs)\<close>; the
  function returns the new state and the \<^verbatim>\<open>undo_info\<close> its inverse action holds.
\<close>

definition delete_iters ::
    "extern \<Rightarrow> (path \<Rightarrow> bool) \<Rightarrow> controller \<Rightarrow> path list \<Rightarrow> controller \<times> undo_info list" where
  "delete_iters ext row_expanded s iters =
     (let t = imodel s;
          paths = iters;
          kept = filter (\<lambda>itr. case iter_parent t itr of
                                 None \<Rightarrow> True
                               | Some parent \<Rightarrow> parent \<notin> set paths) iters;
          refs = map (get_persistent_ref_from_iter t) kept;
          undo_info =
            map (\<lambda>itr.
                   let (deleted_dic, prev_ref, ing_obj) = get_undo_info_for_iter ext t itr;
                       n = (case get_row t itr of Some r \<Rightarrow> length (children r) | None \<Rightarrow> 0);
                       expanded = (if 0 < n then row_expanded itr else False);
                       children_info = map (\<lambda>j. get_undo_info_for_iter ext t (itr @ [j])) [0..<n]
                   in (deleted_dic, prev_ref, ing_obj, children_info, expanded))
              kept
      in (do_delete_iters ext s refs, undo_info))"

text \<open>
  The loop over the children in \<^verbatim>\<open>do_undelete_iters\<close>. \<open>itr\<close> is the row added last:
  the first child goes into it (\<^verbatim>\<open>gi = itr\<close>), every later child behind the row its
  recorded reference resolves to.
\<close>

fun undelete_children ::
    "extern \<Rightarrow> child_info list \<Rightarrow> bool \<Rightarrow> controller \<Rightarrow> path \<Rightarrow> error + (controller \<times> path)" where
  "undelete_children ext [] first s itr = Inr (s, itr)"
| "undelete_children ext ((rowdic, pref, io) # cs) first s itr =
     (let pi = (if first then None else get_iter_from_persistent_ref ext s pref);
          gi = (if first then Some itr else None)
      in if truthy io \<and> \<not> (is_str io \<or> is_int io \<or> is_RecRef io)
         then (case add_ingredient ext s io pi gi False True of
                 Inl e \<Rightarrow> Inl e
               | Inr (s1, itr1) \<Rightarrow>
                   undelete_children ext cs False
                     (s1\<lparr>imodel := update_ingredient_row ext (imodel s1) itr1 rowdic\<rparr>) itr1)
         else (let (s1, itr1) = add_ingredient_from_kwargs ext s gi pi False VNone rowdic
               in undelete_children ext cs False
                    (s1\<lparr>imodel := set_value (imodel s1) itr1 0 io\<rparr>) itr1))"

fun do_undelete_iters :: "extern \<Rightarrow> controller \<Rightarrow> undo_info list \<Rightarrow> error + controller" where
  "do_undelete_iters ext s [] = Inr s"
| "do_undelete_iters ext s ((rowdic, prev_ref, ing_obj, children_info, expanded) # rest) =
     (let prev_iter = get_iter_from_persistent_ref ext s prev_ref;
          added =
            (if truthy ing_obj \<and> is_str ing_obj
             then (case add_group ext (imodel s) (dict_get rowdic ''amount'')
                          prev_iter [] False of
                     Inl e \<Rightarrow> Inl e
                   | Inr (t, g) \<Rightarrow> Inr (s\<lparr>imodel := t\<rparr>, g))
             else if is_int ing_obj \<or> \<not> truthy ing_obj
             then Inr (add_ingredient_from_kwargs ext s None prev_iter False ing_obj rowdic)
             else (case add_ingredient ext s ing_obj prev_iter None False True of
                     Inl e \<Rightarrow> Inl e
                   | Inr (s1, iter) \<Rightarrow>
                       Inr (s1\<lparr>imodel := update_ingredient_row ext (imodel s1) iter rowdic\<rparr>,
                            iter)))
      in case added of
           Inl e \<Rightarrow> Inl e
         | Inr (s1, itr) \<Rightarrow>
             (case undelete_children ext children_info True s1 itr of
                Inl e \<Rightarrow> Inl e
              | Inr (s2, itr2) \<Rightarrow>
                  do_undelete_iters ext
                    (if expanded then s2\<lparr>expand_calls := expand_calls s2 @ [itr2]\<rparr> else s2)
                    rest))"

subsection \<open>Committing the tree to the backing store\<close>

text \<open>
  The branch of \<^verbatim>\<open>commit_iter\<close> for an ingredient row, in two parts:
  \<open>commit_dict\<close> builds the dictionary \<open>d\<close> up to the test for an old ingredient, and
  \<open>commit_row\<close> is the whole branch. \<open>deleted\<close> is the list of the enclosing
  \<^verbatim>\<open>commit_ingredients\<close>. The dictionary never has the key \<^verbatim>\<open>shop_cat\<close> unless a
  plugin adds it; the shopping list it would update is not modelled. Inside the guard
  \<^verbatim>\<open>hasattr(d, att)\<close> the comparison reads the attribute of the row object and the
  key of the dictionary.
\<close>

definition commit_atts :: "string list" where
  "commit_atts = [''amount'', ''unit'', ''item'', ''ingkey'', ''position'', ''inggroup'',
                  ''optional'']"

definition commit_dict :: "extern \<Rightarrow> row list \<Rightarrow> path \<Rightarrow> int \<Rightarrow> pyval \<Rightarrow> error + dict" where
  "commit_dict ext t iter pos grp =
     (let ing = get_value t iter 0;
          d0 = get_rowdict t iter
      in case (if truthy (dict_get d0 ''amount'')
               then (case parse_range ext (dict_get d0 ''amount'') of
                       None \<Rightarrow> Inl ParseError
                     | Some (amt, rangeamount) \<Rightarrow>
                         Inr (if truthy rangeamount
                              then dict_set (dict_set d0 ''amount'' amt) ''rangeamount'' rangeamount
                              else dict_set d0 ''amount'' amt))
               else Inr (dict_set d0 ''amount'' VNone)) of
           Inl e \<Rightarrow> Inl e
         | Inr d1 \<Rightarrow>
            (let d2 = (if dict_has d1 ''shop_cat'' then dict_del d1 ''shop_cat'' else d1);
                 d3 = dict_set d2 ''position'' (VInt pos);
                 d4 = dict_set d3 ''inggroup'' grp
             in Inr (if is_RecRef ing
                     then dict_set d4 ''refid''
                            (case getattr ing ''refid'' of Some r \<Rightarrow> r | None \<Rightarrow> VNone)
                     else d4)))"

definition commit_row ::
    "extern \<Rightarrow> pyval \<Rightarrow> path \<Rightarrow> int \<Rightarrow> pyval \<Rightarrow> controller \<times> pyval list
      \<Rightarrow> error + (controller \<times> pyval list)" where
  "commit_row ext recipe_id iter pos grp st =
     (let s = fst st; deleted = snd st;
          ing = get_value (imodel s) iter 0
      in case commit_dict ext (imodel s) iter pos grp of
           Inl e \<Rightarrow> Inl e
         | Inr d5 \<Rightarrow>
             if \<not> (is_int ing \<or> is_RecRef ing)
             then (let d6 = fold (\<lambda>att d. if hasattr_dict d att
                                            then (if getattr ing att = Some (dict_get d att)
                                                  then dict_del d att else d)
                                            else d) commit_atts d5;
                       d7 = (if ing \<in> set deleted then d6
                             else dict_set d6 ''deleted'' (VBool False));
                       deleted' = (if ing \<in> set deleted then remove1 ing deleted else deleted)
                   in case getattr ing ''deleted'' of
                        None \<Rightarrow> Inl AttributeError
                      | Some dl \<Rightarrow>
                          (let d8 = (if truthy dl then dict_set d7 ''deleted'' (VBool False)
                                     else d7)
                           in Inr (if d8 \<noteq> []
                                   then s\<lparr>rd_calls := rd_calls s @ [Modify_ing ing d8]\<rparr>
                                   else s,
                                   deleted')))
             else (let d6 = dict_set d5 ''recipe_id'' recipe_id;
                       obj = add_ing_and_update_keydic ext (rd_calls s) d6
                   in Inr (s\<lparr>rd_calls := rd_calls s @ [Add_ing d6],
                              commited_items_converter :=
                                dict_set (commited_items_converter s) ing obj,
                              imodel := set_value (imodel s) iter 0 obj,
                              ingredient_objects := ingredient_objects s @ [obj]\<rparr>,
                           deleted)))"

text \<open>
  \<^verbatim>\<open>commit_iter\<close> and its loop over the children of a group. The recursion follows
  the rows of the subtree as they are when the row is reached: the commit writes
  cells only, it never adds or removes a row, so \<^verbatim>\<open>iter_children\<close> and \<^verbatim>\<open>iter_next\<close>
  designate these rows one after the other. The cells are read from the current store.
\<close>

fun commit_iter ::
    "extern \<Rightarrow> pyval \<Rightarrow> row \<Rightarrow> path \<Rightarrow> int \<Rightarrow> pyval \<Rightarrow> controller \<times> pyval list
      \<Rightarrow> error + ((controller \<times> pyval list) \<times> int)"
and commit_rows ::
    "extern \<Rightarrow> pyval \<Rightarrow> row list \<Rightarrow> path \<Rightarrow> nat \<Rightarrow> int \<Rightarrow> pyval \<Rightarrow> controller \<times> pyval list
      \<Rightarrow> error + ((controller \<times> pyval list) \<times> int)" where
  "commit_iter ext recipe_id (Row a b c d e ks) iter pos grp st =
     (let ing = get_value (imodel (fst st)) iter 0
      in if is_str ing
         then commit_rows ext recipe_id ks iter 0 pos (get_value (imodel (fst st)) iter 1) st
         else (case commit_row ext recipe_id iter pos grp st of
                 Inl e \<Rightarrow> Inl e
               | Inr st' \<Rightarrow> Inr (st', pos + 1)))"
| "commit_rows ext recipe_id [] parent j pos grp st = Inr (st, pos)"
| "commit_rows ext recipe_id (r # rs) parent j pos grp st =
     (case commit_iter ext recipe_id r (parent @ [j]) pos grp st of
        Inl e \<Rightarrow> Inl e
      | Inr (st', pos') \<Rightarrow> commit_rows ext recipe_id rs parent (Suc j) pos' grp st')"

definition commit_ingredients :: "extern \<Rightarrow> pyval \<Rightarrow> controller \<Rightarrow> error + controller" where
  "commit_ingredients ext recipe_id s =
     (case commit_rows ext recipe_id (imodel s) [] 0 0 VNone (s, ingredient_objects s) of
        Inl e \<Rightarrow> Inl e
      | Inr ((s1, deleted), n) \<Rightarrow>
          Inr (s1\<lparr>ingredient_objects := fold remove1 deleted (ingredient_objects s1),
                  rd_calls := rd_calls s1 @ [Modify_ings deleted [(''deleted'', VBool True)]]\<rparr>))"

section \<open>The recipe selector\<close>

text \<open>
  \<^verbatim>\<open>RecSelector.ok\<close> adds every selected recipe as an ingredient of the recipe being
  edited. A selected recipe is given by its \<^verbatim>\<open>id\<close>, \<^verbatim>\<open>title\<close> and \<^verbatim>\<open>yields\<close>;
  \<open>ask_yield\<close> is what the user enters in the \<^verbatim>\<open>YieldSelector\<close> dialog and \<open>pre_iter\<close>
  the row selected in the tree view.
\<close>

record recipe =
  rec_id :: pyval
  rec_title :: pyval
  rec_yields :: pyval

definition ok ::
    "extern \<Rightarrow> (recipe \<Rightarrow> pyval) \<Rightarrow> pyval \<Rightarrow> path option \<Rightarrow> controller \<Rightarrow> recipe list
      \<Rightarrow> controller" where
  "ok ext ask_yield current_rec_id pre_iter s recs =
     fold (\<lambda>rec s.
             if rec_id rec = current_rec_id then s
             else (let amount = (if truthy (rec_yields rec) then ask_yield rec else VInt 1);
                       ingdic = [(''amount'', VStr (py_str ext amount)),
                                 (''item'', rec_title rec),
                                 (''refid'', rec_id rec)]
                   in fst (add_ingredient_from_kwargs ext s pre_iter None True VNone ingdic)))
       recs s"

section \<open>The image box\<close>

text \<open>
  \<^verbatim>\<open>ImageBox\<close> holds the attached image and its thumbnail (\<^verbatim>\<open>None\<close> when there is
  none) and shows or hides the image widget. \<^verbatim>\<open>iu.image_to_bytes\<close> belongs to the
  module \<^verbatim>\<open>image_utils\<close> and is a parameter here. A PIL image defines neither
  \<^verbatim>\<open>__bool__\<close> nor \<^verbatim>\<open>__len__\<close>, so \<^verbatim>\<open>if self.image:\<close> tests for \<^verbatim>\<open>None\<close>.
\<close>

record 'img image_box =
  image_obj :: "'img option"
  thumbnail :: "'img option"
  imageW_shown :: bool

definition commit :: "('img option \<Rightarrow> 'b) \<Rightarrow> 'img image_box
    \<Rightarrow> ('b option \<times> 'b option) \<times> 'img image_box" where
  "commit image_to_bytes box =
     (if image_obj box \<noteq> None
      then ((Some (image_to_bytes (image_obj box)), Some (image_to_bytes (thumbnail box))),
            box\<lparr>imageW_shown := True\<rparr>)
      else ((None, None), box\<lparr>imageW_shown := False\<rparr>))"

section \<open>Notions used to state the properties\<close>

text \<open>The column-0 values of all rows of a tree, in display order.\<close>

fun col0s :: "row list \<Rightarrow> pyval list" where
  "col0s [] = []"
| "col0s (Row a b c d e ks # rs) = a # col0s ks @ col0s rs"

text \<open>The recipes referred to by the \<^verbatim>\<open>RecRef\<close> rows of a tree.\<close>

fun refid_of :: "pyval \<Rightarrow> pyval" where
  "refid_of (VRecRef k r t) = r"
| "refid_of v = VNone"

definition refids :: "row list \<Rightarrow> pyval list" where
  "refids t = map refid_of (filter is_RecRef (col0s t))"

text \<open>
  The group row \<^verbatim>\<open>add_group\<close> creates, and the top-level index at which it creates
  it: the end or the start of the tree without \<open>prev_iter\<close>, else the place behind the
  top-level ancestor of \<open>prev_iter\<close> (the first index of its path).
\<close>

definition group_row :: "extern \<Rightarrow> pyval \<Rightarrow> row" where
  "group_row ext name = Row (VStr (''GROUP '' @ py_str ext name)) name VNone VNone (VBool False) []"

definition group_place :: "row list \<Rightarrow> path option \<Rightarrow> bool \<Rightarrow> nat" where
  "group_place t prev_iter fallback_on_append =
     (case prev_iter of
        None \<Rightarrow> if fallback_on_append then length t else 0
      | Some p \<Rightarrow> Suc (hd p))"

text \<open>
  The test of the search loop: a row matches a reference when its column 0 equals the
  reference or \<^verbatim>\<open>rd.row_equal\<close> holds of the two.
\<close>

definition matches :: "extern \<Rightarrow> pyval \<Rightarrow> pyval \<Rightarrow> bool" where
  "matches ext v ref = (v = ref \<or> row_equal ext v ref)"

text \<open>The iterator the search loop goes to from a row that does not match.\<close>

definition walk_step :: "row list \<Rightarrow> path \<Rightarrow> path option" where
  "walk_step t p =
     (case iter_children t p of
        Some child \<Rightarrow> Some child
      | None \<Rightarrow>
          (case iter_next t p of
             Some nxt \<Rightarrow> Some nxt
           | None \<Rightarrow>
               (case iter_parent t p of
                  Some parent \<Rightarrow> iter_next t parent
                | None \<Rightarrow> None)))"

text \<open>No row below the top level has children: groups are not nested.\<close>

definition two_levels :: "row list \<Rightarrow> bool" where
  "two_levels t = (\<forall>r \<in> set t. \<forall>c \<in> set (children r). children c = [])"

text \<open>
  The ingredient rows of a forest in the order of the commit, each with the name of
  its group: a row whose column 0 is a string is a group, whose children follow under
  its name (column 1); any other row is an ingredient row.
\<close>

fun ing_rows :: "row \<Rightarrow> path \<Rightarrow> pyval \<Rightarrow> (path \<times> pyval) list"
and ing_rows_list :: "row list \<Rightarrow> path \<Rightarrow> nat \<Rightarrow> pyval \<Rightarrow> (path \<times> pyval) list" where
  "ing_rows (Row a b c d e ks) p grp = (if is_str a then ing_rows_list ks p 0 b else [(p, grp)])"
| "ing_rows_list [] parent j grp = []"
| "ing_rows_list (r # rs) parent j grp =
     ing_rows r (parent @ [j]) grp @ ing_rows_list rs parent (Suc j) grp"

definition ingredient_rows :: "row list \<Rightarrow> (path \<times> pyval) list" where
  "ingredient_rows t = ing_rows_list t [] 0 VNone"

text \<open>The commit of a list of ingredient rows, one after the other.\<close>

fun commit_list ::
    "extern \<Rightarrow> pyval \<Rightarrow> (path \<times> pyval) list \<Rightarrow> int \<Rightarrow> controller \<times> pyval list
      \<Rightarrow> error + ((controller \<times> pyval list) \<times> int)" where
  "commit_list ext recipe_id [] pos st = Inr (st, pos)"
| "commit_list ext recipe_id ((p, grp) # xs) pos st =
     (case commit_row ext recipe_id p pos grp st of
        Inl e \<Rightarrow> Inl e
      | Inr st' \<Rightarrow> commit_list ext recipe_id xs (pos + 1) st')"

text \<open>
  A store agrees with a row at a path when the cells that steer the commit (column 0
  and the group name in column 1) are those of the row, there and below.
\<close>

fun agrees :: "row list \<Rightarrow> path \<Rightarrow> row \<Rightarrow> bool"
and agrees_list :: "row list \<Rightarrow> path \<Rightarrow> nat \<Rightarrow> row list \<Rightarrow> bool" where
  "agrees t p (Row a b c d e ks) =
     (get_value t p 0 = a \<and> get_value t p 1 = b \<and> agrees_list t p 0 ks)"
| "agrees_list t parent j [] = True"
| "agrees_list t parent j (r # rs) = (agrees t (parent @ [j]) r \<and> agrees_list t parent (Suc j) rs)"

text \<open>A row is new when its column 0 is an integer placeholder or a \<^verbatim>\<open>RecRef\<close>.\<close>

definition is_new :: "pyval \<Rightarrow> bool" where
  "is_new v = (is_int v \<or> is_RecRef v)"

text \<open>
  The dictionary passed to \<^verbatim>\<open>modify_ing_and_update_keydic\<close> for an old ingredient:
  \<open>d\<close> with \<^verbatim>\<open>deleted\<close> set to \<^verbatim>\<open>False\<close> when the object was not tracked or is marked
  deleted.
\<close>

definition old_dict :: "dict \<Rightarrow> bool \<Rightarrow> pyval \<Rightarrow> dict" where
  "old_dict d5 tracked dl =
     (let d7 = (if tracked then d5 else dict_set d5 ''deleted'' (VBool False))
      in if truthy dl then dict_set d7 ''deleted'' (VBool False) else d7)"

text \<open>
  The rows of a list are untouched in a store \<open>t'\<close> when they are distinct rows of it
  and their cells are still those of the store \<open>t\<close> the commit started from.
\<close>

definition untouched :: "row list \<Rightarrow> row list \<Rightarrow> (path \<times> pyval) list \<Rightarrow> bool" where
  "untouched t t' xs =
     (distinct (map fst xs) \<and>
      (\<forall>(q, g) \<in> set xs. get_row t' q \<noteq> None \<and> (\<forall>m \<le> 4. get_value t' q m = get_value t q m)))"

text \<open>
  What a call to the backing store says about a row (position, group, item, unit), and
  what the row at a given index of the traversal says.
\<close>

definition call_dict :: "dbcall \<Rightarrow> dict" where
  "call_dict c = (case c of Add_ing d \<Rightarrow> d | Modify_ing i d \<Rightarrow> d | Modify_ings is d \<Rightarrow> d)"

definition call_summary :: "dbcall \<Rightarrow> pyval \<times> pyval \<times> pyval \<times> pyval" where
  "call_summary c =
     (dict_get (call_dict c) ''position'', dict_get (call_dict c) ''inggroup'',
      dict_get (call_dict c) ''item'', dict_get (call_dict c) ''unit'')"

definition row_summary :: "row list \<Rightarrow> nat \<Rightarrow> path \<times> pyval \<Rightarrow> pyval \<times> pyval \<times> pyval \<times> pyval" where
  "row_summary t k x = (VInt (int k), snd x, get_value t (fst x) 3, get_value t (fst x) 2)"

text \<open>
  The objects of the ingredient rows that stand for saved ingredients (their column 0
  is neither a placeholder nor a \<^verbatim>\<open>RecRef\<close>), and the ingredient rows that are new.
\<close>

definition stored_objects :: "row list \<Rightarrow> pyval list" where
  "stored_objects t =
     filter (\<lambda>v. \<not> is_new v) (map (\<lambda>x. get_value t (fst x) 0) (ingredient_rows t))"

definition new_rows :: "row list \<Rightarrow> (path \<times> pyval) list" where
  "new_rows t = filter (\<lambda>x. is_new (get_value t (fst x) 0)) (ingredient_rows t)"

text \<open>
  Only group rows have children. \<^verbatim>\<open>_new_iter_\<close> keeps it so: it appends a row under
  \<open>group_iter\<close> only when that row is a group, and inserts behind it otherwise.
\<close>

fun only_groups_nest :: "row list \<Rightarrow> bool" where
  "only_groups_nest [] = True"
| "only_groups_nest (Row a b c d e ks # rs) =
     ((ks = [] \<or> is_str a) \<and> only_groups_nest ks \<and> only_groups_nest rs)"

subsection \<open>Sample data\<close>

text \<open>
  A backing store and helpers to run the controller on: \<open>parse_range\<close> knows three
  amounts, the store numbers its new rows from 100, and \<open>path_next\<close> is the path of
  the previous sibling.
\<close>

definition sample_ext :: extern where
  "sample_ext =
     \<lparr>parse_range = (\<lambda>v. if v = VStr ''1'' then Some (VFloat 1, VNone)
                          else if v = VStr ''2'' then Some (VFloat 2, VNone)
                          else if v = VStr ''1-2'' then Some (VFloat 1, VFloat 2)
                          else None),
      row_equal = (\<lambda>a b. a = b),
      get_amount_as_string = (\<lambda>i. case getattr i ''amount'' of
                                      Some (VFloat r) \<Rightarrow> (if r = 1 then VStr ''1'' else VStr ''2'')
                                    | _ \<Rightarrow> VStr []),
      add_ing_and_update_keydic =
        (\<lambda>calls d. VIng ((''id'', VInt (100 + int (length calls))) # (''deleted'', VBool False) # d)),
      path_next = (\<lambda>p. if p = [] \<or> last p = 0 then None else Some (butlast p @ [last p - 1])),
      py_repr = (\<lambda>v. ''?'')\<rparr>"

text \<open>A saved ingredient: one cup of milk, first in its recipe, in no group.\<close>

definition milk :: pyval where
  "milk = VIng [(''id'', VInt 7), (''amount'', VFloat 1), (''unit'', VStr ''cup''),
                (''item'', VStr ''milk''), (''ingkey'', VStr ''milk''), (''position'', VInt 0),
                (''inggroup'', VNone), (''optional'', VBool False), (''deleted'', VBool False)]"

definition milk_row :: row where
  "milk_row = Row milk (VStr ''1'') (VStr ''cup'') (VStr ''milk'') (VBool False) []"

text \<open>A group with one ingredient that was never saved.\<close>

definition sauce_tree :: "row list" where
  "sauce_tree =
     [Row (VStr ''GROUP sauce'') (VStr ''sauce'') VNone VNone (VBool False)
        [Row (VInt 0) (VStr ''1'') (VStr ''cup'') (VStr ''milk'') (VBool False) []]]"

definition controller_of :: "row list \<Rightarrow> pyval list \<Rightarrow> controller" where
  "controller_of t objs =
     \<lparr>imodel = t, new_item_count = 0, commited_items_converter = [],
      ingredient_objects = objs, recref_count = 0, rd_calls = [], expand_calls = []\<rparr>"

text \<open>A group inside a group, followed by a top-level ingredient.\<close>

definition nested_tree :: "row list" where
  "nested_tree =
     [Row (VStr ''GROUP a'') (VStr ''a'') VNone VNone (VBool False)
        [Row (VStr ''GROUP b'') (VStr ''b'') VNone VNone (VBool False)
           [Row (VInt 0) (VStr ''1'') (VStr ''cup'') (VStr ''milk'') (VBool False) []]],
      Row (VInt 1) (VStr ''2'') VNone (VStr ''eggs'') (VBool False) []]"

text \<open>
  Two more saved ingredients, and a tree with a group of two rows (milk, never saved,
  and butter) followed by a top-level row (eggs, never saved). The flour is tracked
  but has no row: the user deleted it.
\<close>

definition butter :: pyval where
  "butter = VIng [(''id'', VInt 8), (''amount'', VFloat 2), (''unit'', VStr ''tbsp''),
                  (''item'', VStr ''butter''), (''ingkey'', VStr ''butter''),
                  (''position'', VInt 5), (''inggroup'', VStr ''sauce''),
                  (''optional'', VBool False), (''deleted'', VBool False)]"

definition flour :: pyval where
  "flour = VIng [(''id'', VInt 9), (''amount'', VFloat 1), (''unit'', VStr ''cup''),
                 (''item'', VStr ''flour''), (''ingkey'', VStr ''flour''),
                 (''position'', VInt 0), (''inggroup'', VNone),
                 (''optional'', VBool False), (''deleted'', VBool False)]"

definition pantry_tree :: "row list" where
  "pantry_tree =
     [Row (VStr ''GROUP sauce'') (VStr ''sauce'') VNone VNone (VBool False)
        [Row (VInt 0) (VStr ''1'') (VStr ''cup'') (VStr ''milk'') (VBool False) [],
         Row butter (VStr ''2'') (VStr ''tbsp'') (VStr ''butter'') (VBool False) []],
      Row (VInt 1) (VStr ''2'') VNone (VStr ''eggs'') (VBool True) []]"

definition pantry :: controller where
  "pantry = controller_of pantry_tree [butter, flour]"

definition pantry_committed :: controller where
  "pantry_committed =
     (case commit_ingredients sample_ext (VInt 3) pantry of Inr s' \<Rightarrow> s' | Inl e \<Rightarrow> pantry)"


section \<open>Properties\<close>

subsection \<open>The column-0 values under the operations of the store\<close>

lemma col0s_append: "col0s (xs @ ys) = col0s xs @ col0s ys"
  by (induction xs rule: col0s.induct) auto

lemma col0s_single: "col0s [r] = c0 r # col0s (children r)"
  by (cases r) simp

lemma col0s_Cons: "col0s (r # rs) = c0 r # col0s (children r) @ col0s rs"
  by (cases r) simp

lemma col0s_nth_split:
  "i < length rs \<Longrightarrow>
   col0s rs = col0s (take i rs) @ c0 (rs ! i) # col0s (children (rs ! i)) @ col0s (drop (Suc i) rs)"
  by (metis Cons_nth_drop_Suc append_take_drop_id col0s_Cons col0s_append)

lemma col0s_list_update:
  "i < length rs \<Longrightarrow>
   col0s (rs[i := r]) = col0s (take i rs) @ c0 r # col0s (children r) @ col0s (drop (Suc i) rs)"
  by (simp add: upd_conv_take_nth_drop col0s_append col0s_Cons)

lemma set_col0s_upd_level:
  assumes "\<And>rs. set (col0s (f rs)) \<subseteq> X \<union> set (col0s rs)"
  shows "set (col0s (upd_level f rs p)) \<subseteq> X \<union> set (col0s rs)"
proof (induction p arbitrary: rs)
  case Nil
  show ?case using assms by simp
next
  case (Cons i p)
  show ?case
  proof (cases "i < length rs")
    case True
    have "set (col0s (upd_level f (children (rs ! i)) p)) \<subseteq> X \<union> set (col0s (children (rs ! i)))"
      by (rule Cons.IH)
    then show ?thesis using True
      by (auto simp: col0s_list_update set_children_def col0s_nth_split [OF True])
  next
    case False
    then show ?thesis by simp
  qed
qed

lemma children_set_cell: "children (set_cell n v r) = children r"
  by (simp add: set_cell_def)

lemma c0_set_cell: "c0 (set_cell n v r) = (if n = 0 then v else c0 r)"
  by (simp add: set_cell_def)

lemma set_col0s_set_cell:
  assumes "i < length rs"
  shows "set (col0s (rs[i := set_cell n v (rs ! i)])) \<subseteq> {v} \<union> set (col0s rs)"
proof -
  have a: "col0s (rs[i := set_cell n v (rs ! i)]) =
      col0s (take i rs) @ (if n = 0 then v else c0 (rs ! i)) # col0s (children (rs ! i))
        @ col0s (drop (Suc i) rs)"
    using assms by (simp only: col0s_list_update children_set_cell c0_set_cell)
  have b: "col0s rs =
      col0s (take i rs) @ c0 (rs ! i) # col0s (children (rs ! i)) @ col0s (drop (Suc i) rs)"
    using assms by (rule col0s_nth_split)
  have "set (col0s (rs[i := set_cell n v (rs ! i)])) \<subseteq>
      {v} \<union> set (col0s (take i rs) @ c0 (rs ! i) # col0s (children (rs ! i))
        @ col0s (drop (Suc i) rs))"
    unfolding a by auto
  with b show ?thesis by simp
qed

lemma set_col0s_set_value: "set (col0s (set_value t p n v)) \<subseteq> {v} \<union> set (col0s t)"
proof (cases "p = []")
  case True
  then show ?thesis by (auto simp: set_value_def)
next
  case False
  have "set (col0s (upd_level (\<lambda>rs. if last p < length rs
                            then rs[last p := set_cell n v (rs ! last p)] else rs) t (butlast p)))
        \<subseteq> {v} \<union> set (col0s t)"
  proof (rule set_col0s_upd_level)
    fix rs :: "row list"
    show "set (col0s (if last p < length rs then rs[last p := set_cell n v (rs ! last p)] else rs))
          \<subseteq> {v} \<union> set (col0s rs)"
      using set_col0s_set_cell [of "last p" rs n v] by auto
  qed
  with False show ?thesis by (simp add: set_value_def)
qed

lemma set_col0s_store_append: "set (col0s (fst (store_append t parent))) \<subseteq> {VNone} \<union> set (col0s t)"
proof (cases parent)
  case None
  then show ?thesis by (simp add: store_append_def col0s_append new_row_def)
next
  case (Some p)
  have "set (col0s (upd_level (\<lambda>rs. rs @ [new_row]) t p)) \<subseteq> {VNone} \<union> set (col0s t)"
    by (rule set_col0s_upd_level) (auto simp: col0s_append new_row_def)
  with Some show ?thesis by (simp add: store_append_def)
qed

lemma set_col0s_store_prepend: "set (col0s (fst (store_prepend t))) \<subseteq> {VNone} \<union> set (col0s t)"
  by (auto simp: store_prepend_def new_row_def)

lemma set_col0s_take_drop:
  "set (col0s (take k rs @ [new_row] @ drop k rs)) \<subseteq> {VNone} \<union> set (col0s rs)"
proof -
  have "col0s rs = col0s (take k rs) @ col0s (drop k rs)"
    by (metis append_take_drop_id col0s_append)
  then show ?thesis by (auto simp: col0s_append new_row_def)
qed

lemma set_col0s_store_insert_after:
  "set (col0s (fst (store_insert_after t p))) \<subseteq> {VNone} \<union> set (col0s t)"
  unfolding store_insert_after_def fst_conv
  by (rule set_col0s_upd_level) (rule set_col0s_take_drop)



lemma new_iter_cases:
  "new_iter t g p fb =
     (case p of
        Some q \<Rightarrow> store_insert_after t q
      | None \<Rightarrow>
          (case g of
             Some gi \<Rightarrow> if is_str (get_value t gi 0) then store_append t (Some gi)
                        else store_insert_after t gi
           | None \<Rightarrow> if fb then store_append t None else store_prepend t))"
proof (cases p)
  case (Some q)
  then show ?thesis by (cases g) (simp_all add: new_iter_def split: prod.split)
next
  case None
  show ?thesis
  proof (cases g)
    case None
    with \<open>p = None\<close> show ?thesis by (simp add: new_iter_def)
  next
    case (Some gi)
    with \<open>p = None\<close> show ?thesis by (simp add: new_iter_def split: prod.split)
  qed
qed

lemma set_col0s_new_iter:
  "set (col0s (fst (new_iter t g p fb))) \<subseteq> {VNone} \<union> set (col0s t)"
  using set_col0s_store_append set_col0s_store_prepend set_col0s_store_insert_after
  by (simp add: new_iter_cases split: option.splits)


lemma col0s_upd_level_same:
  assumes "\<And>rs. col0s (f rs) = col0s rs"
  shows "col0s (upd_level f rs p) = col0s rs"
proof (induction p arbitrary: rs)
  case Nil
  show ?case using assms by simp
next
  case (Cons i p)
  show ?case
  proof (cases "i < length rs")
    case True
    have "col0s (upd_level f (children (rs ! i)) p) = col0s (children (rs ! i))"
      by (rule Cons.IH)
    then show ?thesis using True
      by (simp add: col0s_list_update set_children_def col0s_nth_split [OF True])
  next
    case False
    then show ?thesis by simp
  qed
qed

lemma col0s_set_value_other: "n \<noteq> 0 \<Longrightarrow> col0s (set_value t p n v) = col0s t"
proof (cases "p = []")
  case True
  then show ?thesis by (simp add: set_value_def)
next
  case False
  assume n: "n \<noteq> 0"
  have "col0s (upd_level (\<lambda>rs. if last p < length rs
                            then rs[last p := set_cell n v (rs ! last p)] else rs) t (butlast p))
        = col0s t"
  proof (rule col0s_upd_level_same)
    fix rs :: "row list"
    show "col0s (if last p < length rs then rs[last p := set_cell n v (rs ! last p)] else rs)
          = col0s rs"
    proof (cases "last p < length rs")
      case True
      have "col0s (rs[last p := set_cell n v (rs ! last p)]) =
        col0s (take (last p) rs) @ c0 (rs ! last p) # col0s (children (rs ! last p))
          @ col0s (drop (Suc (last p)) rs)"
        using True n by (simp only: col0s_list_update children_set_cell c0_set_cell if_False)
      with True show ?thesis by (simp add: col0s_nth_split [OF True, symmetric])
    next
      case False
      then show ?thesis by simp
    qed
  qed
  with False show ?thesis by (simp add: set_value_def)
qed

lemma col0s_update_ingredient_row: "col0s (update_ingredient_row ext t p d) = col0s t"
  by (simp add: update_ingredient_row_def Let_def col0s_set_value_other)

lemma refids_iff: "x \<in> set (refids t) \<longleftrightarrow> (\<exists>k title. VRecRef k x title \<in> set (col0s t))"
proof
  assume "x \<in> set (refids t)"
  then obtain v where v: "v \<in> set (col0s t)" "is_RecRef v" "x = refid_of v"
    by (auto simp: refids_def)
  show "\<exists>k title. VRecRef k x title \<in> set (col0s t)"
  proof (cases v)
    case (VRecRef k r title)
    with v have "VRecRef k x title \<in> set (col0s t)" by simp
    then show ?thesis by blast
  qed (use v in simp_all)
next
  assume "\<exists>k title. VRecRef k x title \<in> set (col0s t)"
  then obtain k title where "VRecRef k x title \<in> set (col0s t)" by blast
  then have "VRecRef k x title \<in> set (filter is_RecRef (col0s t))" by simp
  then have "refid_of (VRecRef k x title) \<in> refid_of ` set (filter is_RecRef (col0s t))"
    by (rule imageI)
  then show "x \<in> set (refids t)" by (simp add: refids_def)
qed

lemma refids_add_ingredient_from_kwargs:
  "set (refids (imodel (fst (add_ingredient_from_kwargs ext s g p fb VNone d))))
     \<subseteq> {dict_get d ''refid''} \<union> set (refids (imodel s))"
proof
  fix x
  assume "x \<in> set (refids (imodel (fst (add_ingredient_from_kwargs ext s g p fb VNone d))))"
  then obtain k title where
    m: "VRecRef k x title \<in> set (col0s (imodel (fst (add_ingredient_from_kwargs ext s g p fb VNone d))))"
    by (auto simp: refids_iff)
  obtain t iter where ni: "new_iter (imodel s) g p fb = (t, iter)" by (cases "new_iter (imodel s) g p fb")
  have t: "set (col0s t) \<subseteq> {VNone} \<union> set (col0s (imodel s))"
    using set_col0s_new_iter [of "imodel s" g p fb] ni by simp
  define v where "v = (if dict_has d ''refid'' \<and> truthy (dict_get d ''refid'')
                then VRecRef (recref_count s) (dict_get d ''refid'')
                       (if dict_has d ''item'' then dict_get d ''item'' else VStr [])
                else VInt (new_item_count s))"
  have "col0s (imodel (fst (add_ingredient_from_kwargs ext s g p fb VNone d)))
      = col0s (set_value t iter 0 v)"
    by (simp add: add_ingredient_from_kwargs_def ni v_def col0s_update_ingredient_row)
  with m have "VRecRef k x title \<in> {v} \<union> set (col0s t)"
    using set_col0s_set_value [of t iter 0 v] by auto
  with t have "VRecRef k x title = v \<or> VRecRef k x title \<in> set (col0s (imodel s))" by auto
  then show "x \<in> {dict_get d ''refid''} \<union> set (refids (imodel s))"
    by (auto simp: v_def refids_iff split: if_splits)
qed

subsection \<open>The recipe selector\<close>

text \<open>
  C9. \<^verbatim>\<open>RecSelector.ok\<close> never adds a recipe as an ingredient of itself: every
  recipe that a \<^verbatim>\<open>RecRef\<close> row refers to after the dialog was referred to before it,
  or is a selected recipe whose id differs from the id of the recipe being edited.
\<close>

theorem ok_never_adds_self:
  "set (refids (imodel (ok ext ask_yield current_rec_id pre_iter s recs)))
     \<subseteq> set (refids (imodel s)) \<union> (rec_id ` set recs - {current_rec_id})"
proof (induction recs arbitrary: s)
  case Nil
  show ?case by (simp add: ok_def)
next
  case (Cons r recs)
  show ?case
  proof (cases "rec_id r = current_rec_id")
    case True
    have "ok ext ask_yield current_rec_id pre_iter s (r # recs)
        = ok ext ask_yield current_rec_id pre_iter s recs"
      using True by (simp add: ok_def)
    with Cons [of s] show ?thesis by auto
  next
    case False
    define d where "d = [(''amount'', VStr (py_str ext (if truthy (rec_yields r) then ask_yield r else VInt 1))),
                         (''item'', rec_title r), (''refid'', rec_id r)]"
    define s1 where "s1 = fst (add_ingredient_from_kwargs ext s pre_iter None True VNone d)"
    have step: "ok ext ask_yield current_rec_id pre_iter s (r # recs)
        = ok ext ask_yield current_rec_id pre_iter s1 recs"
      using False by (simp add: ok_def s1_def d_def Let_def)
    have "set (refids (imodel s1)) \<subseteq> {rec_id r} \<union> set (refids (imodel s))"
      using refids_add_ingredient_from_kwargs [of ext s pre_iter None True d]
      by (simp add: s1_def d_def dict_get_def)
    with Cons [of s1] False show ?thesis unfolding step by auto
  qed
qed

subsection \<open>Groups\<close>

lemma climb_to_top_hd: "p \<noteq> [] \<Longrightarrow> climb_to_top t p = [hd p]"
proof (induction t p rule: climb_to_top.induct)
  case (1 t p)
  show ?case
  proof (cases "length p \<le> 1")
    case True
    with 1 have "p = [hd p]" by (cases p) auto
    with True show ?thesis by (subst climb_to_top.simps) (simp add: iter_parent_def)
  next
    case False
    then have ip: "iter_parent t p = Some (butlast p)" by (simp add: iter_parent_def)
    from False have nb: "butlast p \<noteq> []" by (cases p) auto
    from False have "hd (butlast p) = hd p" by (cases p) auto
    with 1(1) [OF ip nb] ip show ?thesis by (subst climb_to_top.simps) simp
  qed
qed

lemma set_value_top:
  "i < length t \<Longrightarrow> set_value t [i] n v = t[i := set_cell n v (t ! i)]"
  by (simp add: set_value_def)

lemma add_group_row_at:
  assumes "k \<le> length t"
  shows "set_value (set_value (take k t @ [new_row] @ drop k t) [k] 0
            (VStr (''GROUP '' @ py_str ext name))) [k] 1 name
         = take k t @ [group_row ext name] @ drop k t"
proof -
  let ?t1 = "take k t @ [new_row] @ drop k t"
  have k: "k < length ?t1" using assms by simp
  have n: "?t1 ! k = new_row" using assms by (simp add: nth_append)
  have u: "\<And>r. ?t1[k := r] = take k t @ [r] @ drop k t"
    using assms by (simp add: list_update_append)
  have "set_value ?t1 [k] 0 (VStr (''GROUP '' @ py_str ext name))
      = take k t @ [set_cell 0 (VStr (''GROUP '' @ py_str ext name)) new_row] @ drop k t"
    using k n u by (simp add: set_value_top)
  moreover have "set_value (take k t @ [set_cell 0 (VStr (''GROUP '' @ py_str ext name)) new_row]
        @ drop k t) [k] 1 name
      = take k t @ [set_cell 1 name (set_cell 0 (VStr (''GROUP '' @ py_str ext name)) new_row)]
        @ drop k t"
    using assms by (simp add: set_value_top nth_append list_update_append)
  ultimately show ?thesis by (simp add: group_row_def set_cell_def new_row_def)
qed

lemma get_row_hd: "get_row t p = Some r \<Longrightarrow> p \<noteq> [] \<and> hd p < length t"
  by (cases p) (auto simp: get_row_Cons split: if_splits)

text \<open>
  The group row itself: \<^verbatim>\<open>add_group\<close> puts it in at the top level, behind the
  top-level ancestor of \<open>prev_iter\<close> (at the end or the start without \<open>prev_iter\<close>);
  no row of the old tree changes. \<open>prev_iter\<close>, when given, designates a row.
\<close>

lemma add_group_row_top_level:
  assumes "case prev_iter of Some p \<Rightarrow> get_row t p \<noteq> None | None \<Rightarrow> True"
  shows "add_group_row ext t name prev_iter fallback_on_append =
           (take (group_place t prev_iter fallback_on_append) t @ [group_row ext name]
              @ drop (group_place t prev_iter fallback_on_append) t,
            [group_place t prev_iter fallback_on_append])"
proof (cases prev_iter)
  case None
  show ?thesis
  proof (cases fallback_on_append)
    case True
    have "add_group_row ext t name None True = (t @ [group_row ext name], [length t])"
      using add_group_row_at [of "length t" t ext name]
      by (simp add: add_group_row_def store_append_def)
    with None True show ?thesis by (simp add: group_place_def)
  next
    case False
    have "add_group_row ext t name None False = (group_row ext name # t, [0])"
      using add_group_row_at [of 0 t ext name]
      by (simp add: add_group_row_def store_prepend_def)
    with None False show ?thesis by (simp add: group_place_def)
  qed
next
  case (Some p)
  with assms obtain r where "get_row t p = Some r" by auto
  then have p: "p \<noteq> []" "hd p < length t" using get_row_hd by auto
  have "add_group_row ext t name (Some p) fallback_on_append
      = (take (Suc (hd p)) t @ [group_row ext name] @ drop (Suc (hd p)) t, [Suc (hd p)])"
    using add_group_row_at [of "Suc (hd p)" t ext name] p
    by (simp add: add_group_row_def store_insert_after_def climb_to_top_hd)
  with Some show ?thesis by (simp add: group_place_def)
qed

lemma add_group_row_sample:
  "add_group_row sample_ext sauce_tree (VStr ''dough'') (Some [0, 0]) True =
     (sauce_tree @ [Row (VStr ''GROUP dough'') (VStr ''dough'') VNone VNone (VBool False) []],
      [1])"
  by code_simp

lemma add_group_no_children:
  "add_group ext t name prev_iter [] fallback_on_append =
     Inr (add_group_row ext t name prev_iter fallback_on_append)"
  by (simp add: add_group_def split: prod.splits)

text \<open>
  The loop that moves the children leaves the group row at the top level, with its
  two cells: a row moved from before it shifts it by one place, and a row moved out of
  another row, or out of the group itself, changes no top-level index.
\<close>

lemma upd_level_Cons_length: "length (upd_level f t (j # q)) = length t"
  by simp

lemma upd_level_Cons_cells:
  "i < length t \<Longrightarrow> c0 (upd_level f t (j # q) ! i) = c0 (t ! i) \<and> c1 (upd_level f t (j # q) ! i) = c1 (t ! i)"
  by (simp add: nth_list_update set_children_def)

lemma move_iter_group:
  assumes m: "move_iter t c [i] = Some t1" and i: "i < length t"
  shows "\<exists>i'. iter_after_move c [i] [i] = Some [i'] \<and> i' < length t1 \<and>
           c0 (t1 ! i') = c0 (t ! i) \<and> c1 (t1 ! i') = c1 (t ! i)"
proof (cases "c = [i]")
  case True
  with m i show ?thesis by (auto simp: move_iter_def iter_after_move_def split: option.splits)
next
  case False
  from m obtain r where r: "get_row t c = Some r"
    by (auto simp: move_iter_def split: option.splits)
  then have ne: "c \<noteq> []" by (cases c) auto
  show ?thesis
  proof (cases "length c = 1")
    case True
    then obtain j where c: "c = [j]" by (cases c) auto
    with r have j: "j < length t" by (auto split: if_splits)
    from c False have ji: "j \<noteq> i" by simp
    define i' where "i' = (if j < i then i - 1 else i)"
    have ar: "after_remove c [i] = Some [i']"
      using c ji by (auto simp: after_remove_def i'_def)
    have t1: "t1 = upd_level (\<lambda>ks. r # ks) (take j t @ drop (Suc j) t) [i']"
      using m r False ar c by (simp add: move_iter_def store_remove_def)
    have i'l: "i' < length (take j t @ drop (Suc j) t)"
      using i j ji by (auto simp: i'_def)
    have nth: "(take j t @ drop (Suc j) t) ! i' = t ! i"
      using i j ji by (auto simp: i'_def nth_append min_def)
    have ia: "iter_after_move c [i] [i] = Some [i']"
      using False ar by (simp add: iter_after_move_def after_insert_def)
    from i'l nth show ?thesis
      unfolding ia t1 by (simp add: set_children_def)
  next
    case False
    with ne obtain j k q where c: "c = j # k # q" by (cases c; cases "tl c") auto
    have ar: "after_remove c [i] = Some [i]"
      using c by (auto simp: after_remove_def)
    have ia: "iter_after_move c [i] [i] = Some [i]"
      using ar c by (simp add: iter_after_move_def after_insert_def)
    obtain f where sr: "store_remove t c = upd_level f t (j # butlast (k # q))"
      using c by (simp add: store_remove_def)
    have t1: "t1 = upd_level (\<lambda>ks. r # ks) (store_remove t c) [i]"
      using m r ar c by (simp add: move_iter_def)
    have l: "length (store_remove t c) = length t" unfolding sr by (rule upd_level_Cons_length)
    have cs: "c0 (store_remove t c ! i) = c0 (t ! i) \<and> c1 (store_remove t c ! i) = c1 (t ! i)"
      unfolding sr using i by (rule upd_level_Cons_cells)
    show ?thesis unfolding ia t1 using l cs i by (simp add: set_children_def)
  qed
qed

lemma move_children_group:
  assumes "move_children t g0 cs = Inr (t', g)" and "g0 = [i]" and "i < length t"
  shows "\<exists>i'. g = [i'] \<and> i' < length t' \<and> c0 (t' ! i') = c0 (t ! i) \<and> c1 (t' ! i') = c1 (t ! i)"
  using assms
proof (induction t g0 cs arbitrary: i rule: move_children.induct)
  case (1 t groupiter)
  then show ?case by auto
next
  case (2 t groupiter cs)
  then show ?case by simp
next
  case (3 t groupiter c cs)
  note gi = "3.prems"(2)
  note IH = "3.IH" [unfolded gi]
  from "3.prems"(1) have p1: "move_children t [i] (Some c # cs) = Inr (t', g)"
    unfolding gi .
  from p1 obtain t1 where m: "move_iter t c [i] = Some t1"
    by (auto split: option.splits)
  from move_iter_group [OF m "3.prems"(3)] obtain i1 where
    g: "iter_after_move c [i] [i] = Some [i1]" and i1: "i1 < length t1"
    and cells: "c0 (t1 ! i1) = c0 (t ! i)" "c1 (t1 ! i1) = c1 (t ! i)" by blast
  from p1 m g have mc:
    "move_children t1 [i1]
       (map (\<lambda>x. case x of None \<Rightarrow> None | Some p \<Rightarrow> iter_after_move c [i] p) cs) = Inr (t', g)"
    by simp
  from IH [OF m g mc refl i1] cells show ?case by auto
qed

lemma add_group_creates_top_level:
  assumes "case prev_iter of Some p \<Rightarrow> get_row t p \<noteq> None | None \<Rightarrow> True"
    and "add_group ext t name prev_iter children_iters fallback_on_append = Inr (t', g)"
  shows "\<exists>i. g = [i] \<and> i < length t' \<and>
           c0 (t' ! i) = VStr (''GROUP '' @ py_str ext name) \<and> c1 (t' ! i) = name"
proof -
  let ?n = "group_place t prev_iter fallback_on_append"
  let ?t3 = "take ?n t @ [group_row ext name] @ drop ?n t"
  have n: "?n \<le> length t"
  proof (cases prev_iter)
    case None
    then show ?thesis by (simp add: group_place_def)
  next
    case (Some p)
    with assms(1) obtain r where "get_row t p = Some r" by auto
    from get_row_hd [OF this] Some show ?thesis by (simp add: group_place_def)
  qed
  from assms(2) have m: "move_children ?t3 [?n]
      (map (map_option (after_insert [?n])) (rev children_iters)) = Inr (t', g)"
    by (simp add: add_group_def add_group_row_top_level [OF assms(1)])
  have l: "?n < length ?t3" using n by simp
  have nth: "?t3 ! ?n = group_row ext name" using n by (simp add: nth_append)
  from move_children_group [OF m refl l] show ?thesis
    unfolding nth by (simp add: group_row_def)
qed

text \<open>
  C8. \<^verbatim>\<open>add_group\<close> creates its group row at the top level, climbing from \<open>prev_iter\<close>
  to its top-level ancestor first, so that no group lies inside another group (the
  comment on the climb: "ALLOW NO NESTING!"). The created row is at the top level
  indeed, whatever is moved into it. But the loop over \<^verbatim>\<open>children_iters\<close> moves every
  row it is given under the new row, also a row that is a group itself. When the group
  row of \<open>sauce_tree\<close> is selected, \<^verbatim>\<open>ingNewGroupCB\<close> passes its iterator both as
  \<open>prev_iter\<close> and as the only child: the group "sauce" and its ingredient end up
  inside the new group "dough".
\<close>

theorem add_group_nests_selected_group:
  "add_group sample_ext sauce_tree (VStr ''dough'') (Some [0]) [Some [0]] True =
     Inr ([Row (VStr ''GROUP dough'') (VStr ''dough'') VNone VNone (VBool False)
             [Row (VStr ''GROUP sauce'') (VStr ''sauce'') VNone VNone (VBool False)
                [Row (VInt 0) (VStr ''1'') (VStr ''cup'') (VStr ''milk'') (VBool False) []]]],
          [0]) \<and>
   map_sum id (imodel \<circ> fst)
       (new_group sample_ext (controller_of sauce_tree []) (VStr ''dough'') [[0]]) =
     Inr [Row (VStr ''GROUP dough'') (VStr ''dough'') VNone VNone (VBool False)
            [Row (VStr ''GROUP sauce'') (VStr ''sauce'') VNone VNone (VBool False)
               [Row (VInt 0) (VStr ''1'') (VStr ''cup'') (VStr ''milk'') (VBool False) []]]]"
  by code_simp

text \<open>
  The tree that results is no longer one in which only top-level rows have children,
  the shape in which persistent references are found again.
\<close>

lemma add_group_result_is_nested:
  "two_levels sauce_tree \<and>
   \<not> two_levels
       [Row (VStr ''GROUP dough'') (VStr ''dough'') VNone VNone (VBool False)
          [Row (VStr ''GROUP sauce'') (VStr ''sauce'') VNone VNone (VBool False)
             [Row (VInt 0) (VStr ''1'') (VStr ''cup'') (VStr ''milk'') (VBool False) []]]]"
  by code_simp

text \<open>
  With the ingredient selected instead, the new group is created behind the group of
  the ingredient and the ingredient moves into it: no group is nested.
\<close>

lemma new_group_of_ingredient:
  "map_sum id (imodel \<circ> fst)
       (new_group sample_ext (controller_of sauce_tree []) (VStr ''dough'') [[0, 0]]) =
     Inr [Row (VStr ''GROUP sauce'') (VStr ''sauce'') VNone VNone (VBool False) [],
          Row (VStr ''GROUP dough'') (VStr ''dough'') VNone VNone (VBool False)
            [Row (VInt 0) (VStr ''1'') (VStr ''cup'') (VStr ''milk'') (VBool False) []]]"
  by code_simp

subsection \<open>Commit: which attributes reach the store\<close>

text \<open>
  The loop that is to drop the unchanged attributes asks \<^verbatim>\<open>hasattr(d, att)\<close> of the
  dictionary \<open>d\<close>. None of the seven names is an attribute of a dictionary, so the
  loop drops nothing, whatever the row object holds.
\<close>

lemma commit_atts_not_attributes: "att \<in> set commit_atts \<Longrightarrow> \<not> hasattr_dict d att"
  by (auto simp: commit_atts_def hasattr_dict_def dict_methods_def dict_special_def)

lemma commit_atts_kept:
  "fold (\<lambda>att d. if hasattr_dict d att
                   then (if getattr ing att = Some (dict_get d att) then dict_del d att else d)
                   else d) commit_atts d = d"
  by (simp add: commit_atts_def hasattr_dict_def dict_methods_def dict_special_def)

text \<open>
  C1. A row backed by a stored ingredient whose values all equal the stored attributes
  should cause no \<^verbatim>\<open>modify_ing_and_update_keydic\<close> call. The tree here has the one
  row of \<open>milk\<close>, unchanged since it was read (amount 1, unit cup, item milk,
  position 0, no group, not optional). The commit calls
  \<^verbatim>\<open>modify_ing_and_update_keydic\<close> for it with all seven attributes.
\<close>

theorem commit_unchanged_row_is_modified:
  "commit_ingredients sample_ext (VInt 3) (controller_of [milk_row] [milk]) =
     Inr ((controller_of [milk_row] [milk])
            \<lparr>rd_calls :=
               [Modify_ing milk
                  [(''amount'', VFloat 1), (''unit'', VStr ''cup''), (''item'', VStr ''milk''),
                   (''optional'', VBool False), (''ingkey'', VStr ''milk''),
                   (''position'', VInt 0), (''inggroup'', VNone)],
                Modify_ings [] [(''deleted'', VBool True)]]\<rparr>)"
  by code_simp

subsection \<open>Deleting and undoing\<close>

text \<open>
  C3. Deleting rows and then running the inverse action \<^verbatim>\<open>do_undelete_iters\<close> should
  give the tree back. In \<open>sauce_tree\<close> the row of milk is the first child of the group
  "sauce"; the row before it, as \<^verbatim>\<open>_get_prev_path_\<close> records it, is its parent. The
  undo resolves that reference to the group row and inserts the milk behind the group,
  at the top level: the group stays empty.
\<close>

theorem delete_undo_first_child_leaves_group:
  "(case delete_iters sample_ext (\<lambda>p. True) (controller_of sauce_tree []) [[0, 0]] of
      (s, undo_info) \<Rightarrow> map_sum id imodel (do_undelete_iters sample_ext s undo_info)) =
     Inr [Row (VStr ''GROUP sauce'') (VStr ''sauce'') VNone VNone (VBool False) [],
          Row (VInt 0) (VStr ''1'') (VStr ''cup'') (VStr ''milk'') (VBool False) []]"
  by code_simp

text \<open>
  Two more ways in which the undo differs from the deletion. A \<^verbatim>\<open>RecRef\<close> row that
  was deleted on its own is given to \<^verbatim>\<open>add_ingredient\<close>, which reads \<^verbatim>\<open>i.unit\<close>; a
  \<^verbatim>\<open>RecRef\<close> has no such attribute. And rows deleted bottom-up, the order in which
  \<^verbatim>\<open>delete_cb\<close> passes them, are put back in that order, each behind a row that is
  not back yet.
\<close>

lemma undo_of_recref_raises:
  "(case delete_iters sample_ext (\<lambda>p. True)
           (controller_of [Row (VRecRef 0 (VInt 5) (VStr ''stock'')) (VStr ''1'') VNone
                             (VStr ''stock'') (VBool False) []] []) [[0]] of
      (s, undo_info) \<Rightarrow> map_sum id imodel (do_undelete_iters sample_ext s undo_info)) =
     Inl AttributeError"
  by code_simp

lemma undo_bottom_up_reorders:
  "(case delete_iters sample_ext (\<lambda>p. True)
           (controller_of [Row (VInt 0) VNone VNone (VStr ''a'') (VBool False) [],
                           Row (VInt 1) VNone VNone (VStr ''b'') (VBool False) [],
                           Row (VInt 2) VNone VNone (VStr ''c'') (VBool False) []] [])
           [[2], [1]] of
      (s, undo_info) \<Rightarrow> map_sum id (map c0 \<circ> imodel) (do_undelete_iters sample_ext s undo_info)) =
     Inr [VInt 2, VInt 0, VInt 1]"
  by code_simp

text \<open>
  The undo of a deleted group asks the view to expand the row added last, which is the
  last child, not the group.
\<close>

lemma undo_expands_last_child:
  "(case delete_iters sample_ext (\<lambda>p. True)
           (controller_of [Row (VStr ''GROUP sauce'') (VStr ''sauce'') VNone VNone (VBool False)
                             [Row (VInt 0) VNone VNone (VStr ''a'') (VBool False) [],
                              Row (VInt 1) VNone VNone (VStr ''b'') (VBool False) []]] [])
           [[0]] of
      (s, undo_info) \<Rightarrow> map_sum id expand_calls (do_undelete_iters sample_ext s undo_info)) =
     Inr [[0, 1]]"
  by code_simp

subsection \<open>Persistent references\<close>

lemma get_iter_loop_step:
  "get_iter_loop ext t ref (Some p) =
     (if matches ext (get_value t p 0) ref then Some p
      else get_iter_loop ext t ref (walk_step t p))"
  by (subst get_iter_loop.simps)
     (simp add: matches_def walk_step_def Let_def split: option.split)

lemma get_iter_loop_None: "get_iter_loop ext t ref None = None"
  by (simp add: get_iter_loop.simps)

lemma length_col0s: "length (col0s rs) = count_rows rs"
  by (induction rs rule: col0s.induct) auto

lemma col0s_take_nth:
  "i < length rs \<Longrightarrow> col0s (take i rs) @ col0s [rs ! i] = col0s (take (Suc i) rs)"
  by (simp add: take_Suc_conv_app_nth col0s_append)

lemma col0s_nth_index:
  assumes "i < length rs" and "k < length (col0s [rs ! i])"
  shows "col0s rs ! (count_rows (take i rs) + k) = col0s [rs ! i] ! k"
proof -
  have "col0s rs = col0s (take i rs) @ col0s [rs ! i] @ col0s (drop (Suc i) rs)"
    using assms(1) by (metis Cons_nth_drop_Suc append_Cons append_Nil append_take_drop_id col0s_append)
  then show ?thesis using assms(2) by (simp add: nth_append length_col0s)
qed

lemma col0s_pre_index:
  "get_row rs p = Some r \<Longrightarrow> col0s rs ! pre_index rs p = c0 r"
proof (induction p arbitrary: rs r)
  case Nil
  then show ?case by simp
next
  case (Cons i p)
  then have i: "i < length rs" by (auto simp: get_row_Cons split: if_splits)
  show ?case
  proof (cases p)
    case Nil
    with Cons.prems i have r: "r = rs ! i" by simp
    have "col0s rs ! (count_rows (take i rs) + 0) = col0s [rs ! i] ! 0"
      using i by (intro col0s_nth_index) (simp_all add: col0s_single)
    with Nil r show ?thesis by (simp add: col0s_single)
  next
    case (Cons j q)
    with Cons.prems i have g: "get_row (children (rs ! i)) p = Some r"
      by (simp add: get_row_Cons)
    from pre_index_bound [OF g] have b: "pre_index (children (rs ! i)) p < count_rows (children (rs ! i))"
      by (simp add: count_rows_single)
    have "col0s rs ! (count_rows (take i rs) + Suc (pre_index (children (rs ! i)) p))
        = col0s [rs ! i] ! Suc (pre_index (children (rs ! i)) p)"
      using i b by (intro col0s_nth_index) (simp_all add: col0s_single length_col0s)
    also have "\<dots> = col0s (children (rs ! i)) ! pre_index (children (rs ! i)) p"
      by (simp add: col0s_single)
    also have "\<dots> = c0 r" using Cons.IH [OF g] .
    finally show ?thesis using Cons by (simp add: pre_index_Cons)
  qed
qed

lemma pre_index_less: "get_row rs p = Some r \<Longrightarrow> pre_index rs p < count_rows rs"
  using pre_index_bound [of rs p r] by (simp add: count_rows_single)

lemma pre_index_inj:
  "get_row rs p = Some r \<Longrightarrow> get_row rs q = Some r' \<Longrightarrow>
   pre_index rs p = pre_index rs q \<Longrightarrow> p = q"
proof (induction p arbitrary: rs q r r')
  case Nil
  then show ?case by simp
next
  case (Cons i p)
  from Cons.prems(2) obtain j q' where q: "q = j # q'" by (cases q) auto
  from Cons.prems(1) have i: "i < length rs" by (auto simp: get_row_Cons split: if_splits)
  from Cons.prems(2) q have j: "j < length rs" by (auto simp: get_row_Cons split: if_splits)
  have sub: "\<And>a x y. a < length rs \<Longrightarrow> get_row rs (a # x) = Some y \<Longrightarrow>
        count_rows (take a rs) \<le> pre_index rs (a # x) \<and>
        pre_index rs (a # x) < count_rows (take (Suc a) rs)"
  proof -
    fix a x y assume a: "a < length rs" and g: "get_row rs (a # x) = Some y"
    show "count_rows (take a rs) \<le> pre_index rs (a # x) \<and>
        pre_index rs (a # x) < count_rows (take (Suc a) rs)"
    proof (cases x)
      case Nil
      then show ?thesis using a by (simp add: count_rows_take_Suc)
    next
      case (Cons b y')
      with g a have "get_row (children (rs ! a)) x = Some y" by (simp add: get_row_Cons)
      from pre_index_less [OF this] Cons a show ?thesis
        by (simp add: pre_index_Cons count_rows_take_Suc)
    qed
  qed
  have mono: "\<And>a b. a < b \<Longrightarrow> b \<le> length rs \<Longrightarrow> count_rows (take (Suc a) rs) \<le> count_rows (take b rs)"
  proof -
    fix a b :: nat assume "a < b" "b \<le> length rs"
    then have "take (Suc a) rs = take (Suc a) (take b rs)" by (simp add: min_def)
    then show "count_rows (take (Suc a) rs) \<le> count_rows (take b rs)"
      by (metis count_rows_take_le)
  qed
  have ij: "i = j"
  proof (rule ccontr)
    assume "i \<noteq> j"
    then consider "i < j" | "j < i" by linarith
    then show False
    proof cases
      case 1
      from sub [OF i Cons.prems(1)] sub [OF j Cons.prems(2) [unfolded q]] mono [OF 1] j
        Cons.prems(3) q show False by simp
    next
      case 2
      from sub [OF i Cons.prems(1)] sub [OF j Cons.prems(2) [unfolded q]] mono [OF 2] i
        Cons.prems(3) q show False by simp
    qed
  qed
  show ?case
  proof (cases p)
    case Nil
    with Cons.prems q ij show ?thesis by (cases q') (simp_all add: pre_index_Cons)
  next
    case (Cons a p')
    note pc = this
    show ?thesis
    proof (cases q')
      case Nil
      with Cons.prems q ij pc show ?thesis by (simp add: pre_index_Cons)
    next
      case (Cons b q'')
      from Cons.prems(1) pc i have g1: "get_row (children (rs ! i)) p = Some r"
        by (simp add: get_row_Cons)
      from Cons.prems(2) q Cons ij i have g2: "get_row (children (rs ! i)) q' = Some r'"
        by (simp add: get_row_Cons)
      from Cons.prems(3) q ij pc Cons
      have "pre_index (children (rs ! i)) p = pre_index (children (rs ! i)) q'"
        by (simp add: pre_index_Cons)
      from Cons.IH [OF g1 g2 this] q ij show ?thesis by simp
    qed
  qed
qed

lemma snoc_path: "p \<noteq> [] \<Longrightarrow> butlast p @ [last p] = p"
  by simp

lemma walk_step_succ:
  assumes v: "get_row t p = Some r" and w: "walk_step t p = Some q"
  shows "(\<exists>rq. get_row t q = Some rq) \<and> pre_index t q = Suc (pre_index t p)"
proof (cases "children r = []")
  case False
  with v w have q: "q = p @ [0]" by (simp add: walk_step_def iter_children_def)
  from v False have "get_row t (p @ [0]) = Some (children r ! 0)" by (simp add: get_row_snoc)
  moreover have "pre_index t (p @ [0]) = Suc (pre_index t p)" using v by (simp add: pre_index_snoc)
  ultimately show ?thesis using q by simp
next
  case True
  from v have pne: "p \<noteq> []" by auto
  let ?n = "butlast p @ [Suc (last p)]"
  show ?thesis
  proof (cases "get_row t ?n")
    case (Some rn)
    with v w True pne have q: "q = ?n" by (simp add: walk_step_def iter_children_def iter_next_def)
    from pre_index_next [OF v] True have "pre_index t ?n = Suc (pre_index t p)"
      by (simp add: count_rows_single)
    with Some q show ?thesis by simp
  next
    case None
    with v w True pne have len: "2 \<le> length p" and w': "iter_next t (butlast p) = Some q"
      by (auto simp: walk_step_def iter_children_def iter_next_def iter_parent_def
               split: if_splits)
    from get_row_butlast [OF v len] obtain rp where rp: "get_row t (butlast p) = Some rp" by blast
    from w' obtain rq where q: "q = butlast (butlast p) @ [Suc (last (butlast p))]"
        and rq: "get_row t q = Some rq"
      by (auto simp: iter_next_def split: option.splits if_splits)
    from v pne have "get_row t (butlast p @ [last p]) = Some r" by simp
    with rp have j: "last p < length (children rp)" and r: "r = children rp ! last p"
      by (auto simp: get_row_snoc split: if_splits)
    from None rp have "\<not> Suc (last p) < length (children rp)"
      by (auto simp: get_row_snoc split: if_splits)
    with j have last: "Suc (last p) = length (children rp)" by simp
    have "count_rows (children rp) = count_rows (take (Suc (last p)) (children rp))"
      using last by simp
    also have "\<dots> = count_rows (take (last p) (children rp)) + Suc 0"
      using j r True by (simp add: count_rows_take_Suc)
    finally have c: "count_rows (children rp) = Suc (count_rows (take (last p) (children rp)))"
      by simp
    have "pre_index t (butlast p @ [last p])
        = Suc (pre_index t (butlast p) + count_rows (take (last p) (children rp)))"
      by (rule pre_index_snoc [OF rp])
    with pne have pp: "pre_index t p = pre_index t (butlast p) + count_rows (children rp)"
      using c by simp
    from pre_index_next [OF rp] q have "pre_index t q = pre_index t (butlast p) + count_rows [rp]"
      by simp
    with pp have "pre_index t q = Suc (pre_index t p)" by (simp add: count_rows_single)
    with rq show ?thesis by blast
  qed
qed

lemma two_levels_leaf:
  assumes "two_levels t" and "get_row t p = Some r" and "2 \<le> length p"
  shows "children r = [] \<and> length p = 2"
proof -
  from assms(3) obtain i j q where p: "p = i # j # q" by (cases p; cases "tl p") auto
  with assms(2) have i: "i < length t" and g: "get_row (children (t ! i)) (j # q) = Some r"
    by (auto split: if_splits)
  from g have j: "j < length (children (t ! i))" by (auto simp: get_row_Cons split: if_splits)
  from i j have "t ! i \<in> set t" "children (t ! i) ! j \<in> set (children (t ! i))" by simp_all
  with assms(1) have leaf: "children (children (t ! i) ! j) = []"
    unfolding two_levels_def by blast
  show ?thesis
  proof (cases q)
    case Nil
    with g j leaf p show ?thesis by simp
  next
    case (Cons k q')
    with g j leaf show ?thesis by (simp add: get_row_Cons)
  qed
qed

lemma walk_step_end:
  assumes tl: "two_levels t" and v: "get_row t p = Some r" and w: "walk_step t p = None"
  shows "Suc (pre_index t p) = count_rows t"
proof (cases "2 \<le> length p")
  case False
  then have "length p \<le> 1" by simp
  moreover from v have "p \<noteq> []" by auto
  ultimately have "length p = 1" by (cases p) auto
  then obtain i where p: "p = [i]" by (cases p) auto
  with v have i: "i < length t" and r: "r = t ! i" by (auto split: if_splits)
  from w p i r have k: "children (t ! i) = []"
    by (auto simp: walk_step_def iter_children_def split: option.splits if_splits)
  from w p i k have "\<not> Suc i < length t"
    by (auto simp: walk_step_def iter_children_def iter_next_def split: option.splits if_splits)
  with i have "Suc i = length t" by simp
  then have "count_rows t = count_rows (take (Suc i) t)" by simp
  with i k p show ?thesis by (simp add: count_rows_take_Suc)
next
  case True
  from two_levels_leaf [OF tl v True] have leaf: "children r = []" and len: "length p = 2" by auto
  from len obtain i j where p: "p = [i, j]" by (cases p; cases "tl p") auto
  with v have i: "i < length t" and j: "j < length (children (t ! i))"
    by (auto split: if_splits)
  from w p i j leaf v have nj: "\<not> Suc j < length (children (t ! i))"
    by (auto simp: walk_step_def iter_children_def iter_next_def split: option.splits if_splits)
  from w p i j leaf v nj have ni: "\<not> Suc i < length t"
    by (auto simp: walk_step_def iter_children_def iter_next_def iter_parent_def
             split: option.splits if_splits)
  from nj j have ej: "Suc j = length (children (t ! i))" by simp
  from ni i have ei: "Suc i = length t" by simp
  from v p i j have r: "r = children (t ! i) ! j" by simp
  have "count_rows (children (t ! i)) = count_rows (take (Suc j) (children (t ! i)))"
    using ej by simp
  also have "\<dots> = Suc (count_rows (take j (children (t ! i))))"
    using j r leaf by (simp add: count_rows_take_Suc)
  finally have cj: "count_rows (children (t ! i)) = Suc (count_rows (take j (children (t ! i))))" .
  have "count_rows t = count_rows (take (Suc i) t)" using ei by simp
  with i cj p show ?thesis by (simp add: count_rows_take_Suc)
qed

lemma get_value_c0: "get_row t p = Some r \<Longrightarrow> get_value t p 0 = c0 r"
  by (simp add: get_value_def cell_def)

lemma unique_match_index:
  assumes "length (filter P xs) = 1" and "m < length xs" and "P (xs ! m)"
    and "k < length xs" and "P (xs ! k)"
  shows "k = m"
proof (rule ccontr)
  assume ne: "k \<noteq> m"
  define a where "a = min k m"
  define b where "b = max k m"
  have ab: "a < b" "b < length xs" "P (xs ! a)" "P (xs ! b)"
    using ne assms by (auto simp: a_def b_def min_def max_def)
  have "xs = take b xs @ xs ! b # drop (Suc b) xs" using ab(2) by (simp add: id_take_nth_drop)
  then have "length (filter P xs) = length (filter P (take b xs)) + length (filter P (xs ! b # drop (Suc b) xs))"
    by (metis filter_append length_append)
  moreover have "xs ! a \<in> set (take b xs)" using ab(1,2) by (auto simp: in_set_conv_nth intro!: exI [of _ a])
  then have "filter P (take b xs) \<noteq> []" using ab(3) by (auto simp: filter_empty_conv)
  then have "1 \<le> length (filter P (take b xs))" by (cases "filter P (take b xs)") auto
  moreover have "1 \<le> length (filter P (xs ! b # drop (Suc b) xs))" using ab(4) by simp
  ultimately show False using assms(1) by linarith
qed

lemma get_iter_loop_reaches:
  assumes tl: "two_levels t"
    and p: "get_row t p = Some r" and mp: "matches ext (c0 r) ref"
    and uniq: "length (filter (\<lambda>v. matches ext v ref) (col0s t)) = 1"
  shows "get_row t q = Some rq \<Longrightarrow> pre_index t q \<le> pre_index t p \<Longrightarrow>
         get_iter_loop ext t ref (Some q) = Some p"
proof (induction "pre_index t p - pre_index t q" arbitrary: q rq)
  case 0
  then have "pre_index t q = pre_index t p" by simp
  with pre_index_inj [OF "0.prems"(1) p] have "q = p" by simp
  with p mp show ?case by (subst get_iter_loop_step) (simp add: get_value_c0)
next
  case (Suc n)
  then have lt: "pre_index t q < pre_index t p" by simp
  have nm: "\<not> matches ext (c0 rq) ref"
  proof
    assume "matches ext (c0 rq) ref"
    then have "matches ext (col0s t ! pre_index t q) ref"
      using col0s_pre_index [OF Suc.prems(1)] by simp
    moreover have "matches ext (col0s t ! pre_index t p) ref"
      using col0s_pre_index [OF p] mp by simp
    ultimately have "pre_index t q = pre_index t p"
      using unique_match_index [OF uniq, of "pre_index t p" "pre_index t q"]
        pre_index_less [OF p] pre_index_less [OF Suc.prems(1)]
      by (simp add: length_col0s)
    with lt show False by simp
  qed
  have "walk_step t q \<noteq> None"
  proof
    assume "walk_step t q = None"
    from walk_step_end [OF tl Suc.prems(1) this] pre_index_less [OF p] lt show False by simp
  qed
  then obtain q' where q': "walk_step t q = Some q'" by blast
  from walk_step_succ [OF Suc.prems(1) q'] obtain rq' where
    v': "get_row t q' = Some rq'" and s': "pre_index t q' = Suc (pre_index t q)" by blast
  have "get_iter_loop ext t ref (Some q') = Some p"
  proof (rule Suc.hyps(1) [OF _ v'])
    show "n = pre_index t p - pre_index t q'" using Suc.hyps(2) s' by simp
    show "pre_index t q' \<le> pre_index t p" using lt s' by simp
  qed
  with nm q' show ?case
    by (subst get_iter_loop_step) (simp add: get_value_c0 [OF Suc.prems(1)])
qed

lemma get_iter_loop_no_match:
  assumes "\<forall>v \<in> set (col0s t). \<not> matches ext v ref"
  shows "(case itr of Some q \<Rightarrow> get_row t q \<noteq> None | None \<Rightarrow> True) \<Longrightarrow>
         get_iter_loop ext t ref itr = None"
proof (induction "walk_measure t itr" arbitrary: itr rule: less_induct)
  case less
  show ?case
  proof (cases itr)
    case None
    then show ?thesis by (simp add: get_iter_loop_None)
  next
    case (Some q)
    with less.prems obtain rq where rq: "get_row t q = Some rq" by auto
    have "col0s t ! pre_index t q \<in> set (col0s t)"
      using pre_index_less [OF rq] by (simp add: length_col0s)
    with assms col0s_pre_index [OF rq] have nm: "\<not> matches ext (c0 rq) ref" by auto
    have "get_iter_loop ext t ref (walk_step t q) = None"
    proof (cases "walk_step t q")
      case None
      then show ?thesis by (simp add: get_iter_loop_None)
    next
      case (Some q')
      from walk_step_succ [OF rq Some] obtain rq' where
        v': "get_row t q' = Some rq'" and s': "pre_index t q' = Suc (pre_index t q)" by blast
      have "walk_measure t (Some q') < walk_measure t (Some q)"
        using v' rq s' by (intro walk_measure_valid_less) auto
      with less.hyps [of "Some q'"] v' Some \<open>itr = Some q\<close> show ?thesis by simp
    qed
    with nm Some show ?thesis
      by (simp add: get_iter_loop_step get_value_c0 [OF rq])
  qed
qed

text \<open>
  C5. In a tree without nested groups, for a row whose column-0 value is matched by
  exactly one row and is not a key of \<^verbatim>\<open>commited_items_converter\<close>,
  \<^verbatim>\<open>get_iter_from_persistent_ref\<close> of \<^verbatim>\<open>get_persistent_ref_from_iter\<close> of the row's
  iterator is that iterator. In any tree, when no row matches the reference (as
  converted), the result is \<^verbatim>\<open>None\<close>.
\<close>

theorem persistent_ref_round_trip:
  "(two_levels (imodel s) \<and> get_row (imodel s) p = Some r \<and>
    map_of (commited_items_converter s) (c0 r) = None \<and>
    length (filter (\<lambda>v. matches ext v (c0 r)) (col0s (imodel s))) = 1
    \<longrightarrow> get_iter_from_persistent_ref ext s (get_persistent_ref_from_iter (imodel s) p) = Some p)
   \<and> ((\<forall>v \<in> set (col0s (imodel s)).
          \<not> matches ext v (converted (commited_items_converter s) ref))
        \<longrightarrow> get_iter_from_persistent_ref ext s ref = None)"
proof (intro conjI impI)
  assume a: "two_levels (imodel s) \<and> get_row (imodel s) p = Some r \<and>
    map_of (commited_items_converter s) (c0 r) = None \<and>
    length (filter (\<lambda>v. matches ext v (c0 r)) (col0s (imodel s))) = 1"
  then have p: "get_row (imodel s) p = Some r" by simp
  from get_row_hd [OF p] have "imodel s \<noteq> []" by auto
  then have i: "get_row (imodel s) [0] = Some (imodel s ! 0)" by simp
  have "get_iter_loop ext (imodel s) (c0 r) (Some [0]) = Some p"
  proof (rule get_iter_loop_reaches [OF _ p _ _ i])
    show "two_levels (imodel s)" using a by simp
    show "matches ext (c0 r) (c0 r)" by (simp add: matches_def)
    show "length (filter (\<lambda>v. matches ext v (c0 r)) (col0s (imodel s))) = 1" using a by simp
    show "pre_index (imodel s) [0] \<le> pre_index (imodel s) p" by simp
  qed
  moreover have "get_iter_first (imodel s) = Some [0]"
    using \<open>imodel s \<noteq> []\<close> by (simp add: get_iter_first_def)
  ultimately show "get_iter_from_persistent_ref ext s (get_persistent_ref_from_iter (imodel s) p) = Some p"
    using a by (simp add: get_iter_from_persistent_ref_def get_persistent_ref_from_iter_def
        converted_def get_value_c0 [OF p])
next
  assume a: "\<forall>v \<in> set (col0s (imodel s)).
          \<not> matches ext v (converted (commited_items_converter s) ref)"
  have "case get_iter_first (imodel s) of Some q \<Rightarrow> get_row (imodel s) q \<noteq> None | None \<Rightarrow> True"
    by (cases "imodel s") (simp_all add: get_iter_first_def)
  from get_iter_loop_no_match [OF a this]
  show "get_iter_from_persistent_ref ext s ref = None"
    by (simp add: get_iter_from_persistent_ref_def)
qed

theorem persistent_ref_round_trip_witness:
  "get_row sauce_tree [0, 0] =
     Some (Row (VInt 0) (VStr ''1'') (VStr ''cup'') (VStr ''milk'') (VBool False) []) \<and>
   get_iter_from_persistent_ref sample_ext (controller_of sauce_tree [])
     (get_persistent_ref_from_iter sauce_tree [0, 0]) = Some [0, 0] \<and>
   get_iter_from_persistent_ref sample_ext (controller_of sauce_tree []) (VInt 5) = None"
proof -
  let ?s = "controller_of sauce_tree []"
  let ?r = "Row (VInt 0) (VStr ''1'') (VStr ''cup'') (VStr ''milk'') (VBool False) []"
  have h1: "two_levels (imodel ?s) \<and> get_row (imodel ?s) [0, 0] = Some ?r \<and>
    map_of (commited_items_converter ?s) (c0 ?r) = None \<and>
    length (filter (\<lambda>v. matches sample_ext v (c0 ?r)) (col0s (imodel ?s))) = 1"
    by (simp add: controller_of_def sauce_tree_def two_levels_def matches_def sample_ext_def)
  have h2: "\<forall>v \<in> set (col0s (imodel ?s)).
          \<not> matches sample_ext v (converted (commited_items_converter ?s) (VInt 5))"
    by (simp add: controller_of_def sauce_tree_def matches_def sample_ext_def converted_def)
  from persistent_ref_round_trip [of ?s "[0, 0]" ?r sample_ext "VInt 5"] h1 h2
  show ?thesis by (simp add: controller_of_def)
qed

text \<open>
  Without the condition on nesting the round trip fails. In \<open>nested_tree\<close> the
  search goes from the last row of the inner group to the next sibling of that group,
  finds none and stops; the top-level row of the eggs is never looked at.
\<close>

theorem persistent_ref_lost_below_nested_group:
  "get_row nested_tree [1] =
     Some (Row (VInt 1) (VStr ''2'') VNone (VStr ''eggs'') (VBool False) []) \<and>
   map_of (commited_items_converter (controller_of nested_tree [])) (VInt 1) = None \<and>
   length (filter (\<lambda>v. matches sample_ext v (VInt 1)) (col0s nested_tree)) = 1 \<and>
   get_iter_from_persistent_ref sample_ext (controller_of nested_tree [])
     (get_persistent_ref_from_iter nested_tree [1]) = None"
  by code_simp

subsection \<open>The store under set_value and the commit as a list\<close>

lemma set_value_single:
  "set_value rs [i] n v = (if i < length rs then rs[i := set_cell n v (rs ! i)] else rs)"
  by (simp add: set_value_def)

lemma set_value_deeper:
  "set_value rs (i # j # p) n v =
     (if i < length rs
      then rs[i := set_children (rs ! i) (set_value (children (rs ! i)) (j # p) n v)]
      else rs)"
proof -
  have b: "butlast (i # j # p) = i # butlast (j # p)" by simp
  have l: "last (i # j # p) = last (j # p)" by simp
  show ?thesis unfolding set_value_def b l by (simp del: last.simps butlast.simps)
qed

lemma set_value_Nil: "set_value rs [] n v = rs"
  by (simp add: set_value_def)

lemma children_set_children: "children (set_children r ks) = ks"
  by (simp add: set_children_def)

lemma cell_set_children: "cell (set_children r ks) m = cell r m"
  by (simp add: set_children_def cell_def)

lemma cell_set_cell:
  "n \<le> 4 \<Longrightarrow> m \<le> 4 \<Longrightarrow> cell (set_cell n v r) m = (if m = n then v else cell r m)"
  by (auto simp: cell_def set_cell_def)

lemma get_value_deeper:
  "q \<noteq> [] \<Longrightarrow> i < length rs \<Longrightarrow> get_value rs (i # q) m = get_value (children (rs ! i)) q m"
  by (simp add: get_value_def get_row_Cons)

lemma get_row_deeper:
  "q \<noteq> [] \<Longrightarrow> i < length rs \<Longrightarrow> get_row rs (i # q) = get_row (children (rs ! i)) q"
  by (simp add: get_row_Cons)

text \<open>Validity of a path does not depend on the cells.\<close>

lemma get_row_set_value_None:
  "get_row (set_value t p n v) q = None \<longleftrightarrow> get_row t q = None"
proof (induction q arbitrary: t p)
  case Nil
  show ?case by simp
next
  case (Cons i q)
  show ?case
  proof (cases p)
    case Nil
    then show ?thesis by (simp add: set_value_Nil)
  next
    case (Cons a p')
    note p = this
    show ?thesis
    proof (cases p')
      case Nil
      with p show ?thesis
        by (cases "i = a") (auto simp: set_value_single get_row_Cons children_set_cell)
    next
      case (Cons b p'')
      with p Cons.IH [of "children (t ! a)" p'] show ?thesis
        by (cases "i = a") (auto simp: set_value_deeper get_row_Cons children_set_children)
    qed
  qed
qed

lemma get_value_set_value:
  assumes "n \<le> 4" and "m \<le> 4"
  shows "get_value (set_value t p n v) q m =
           (if q = p \<and> m = n \<and> get_row t p \<noteq> None then v else get_value t q m)"
proof (induction q arbitrary: t p)
  case Nil
  show ?case by (auto simp: get_value_def)
next
  case (Cons i q)
  show ?case
  proof (cases p)
    case Nil
    then show ?thesis by (simp add: set_value_Nil)
  next
    case (Cons a p')
    note p = this
    show ?thesis
    proof (cases p')
      case Nil
      with p assms show ?thesis
        by (cases "i = a"; cases q)
           (auto simp: set_value_single get_value_def get_row_Cons children_set_cell cell_set_cell)
    next
      case (Cons b p'')
      have ih: "get_value (set_value (children (t ! a)) p' n v) q m =
           (if q = p' \<and> m = n \<and> get_row (children (t ! a)) p' \<noteq> None then v
            else get_value (children (t ! a)) q m)"
        by (rule Cons.IH)
      show ?thesis
      proof (cases "i = a \<and> a < length t")
        case False
        with p Cons show ?thesis
          by (auto simp: set_value_deeper get_value_def get_row_Cons)
      next
        case True
        show ?thesis
        proof (cases q)
          case Nil
          with True p Cons show ?thesis
            by (simp add: set_value_deeper get_value_def cell_set_children)
        next
          case (Cons c q')
          then have qne: "q \<noteq> []" by simp
          from True have ia: "i = a" and a: "a < length t" by simp_all
          have pne: "p' \<noteq> []" using \<open>p' = b # p''\<close> by simp
          let ?t' = "t[a := set_children (t ! a) (set_value (children (t ! a)) p' n v)]"
          have sv: "set_value t p n v = ?t'"
            using p \<open>p' = b # p''\<close> a by (simp only: set_value_deeper if_True)
          have "get_value (set_value t p n v) (i # q) m = get_value (children (?t' ! a)) q m"
            using a by (simp only: sv ia) (rule get_value_deeper [OF qne], simp)
          also have "\<dots> = get_value (set_value (children (t ! a)) p' n v) q m"
            using a by (simp add: children_set_children)
          also note ih
          also have "get_row (children (t ! a)) p' = get_row t p"
            using p get_row_deeper [OF pne a] by simp
          also have "get_value (children (t ! a)) q m = get_value t (i # q) m"
            using get_value_deeper [OF qne a] ia by simp
          finally show ?thesis using p ia by simp
        qed
      qed
    qed
  qed
qed

lemma commit_list_append:
  "commit_list ext rid (xs @ ys) pos st =
     (case commit_list ext rid xs pos st of
        Inl e \<Rightarrow> Inl e
      | Inr (st', pos') \<Rightarrow> commit_list ext rid ys pos' st')"
  by (induction xs arbitrary: pos st) (auto split: sum.splits)

lemma ing_rows_prefix:
  "(q, g) \<in> set (ing_rows r p grp) \<Longrightarrow> \<exists>x. q = p @ x"
  "(q, g) \<in> set (ing_rows_list rs parent j grp) \<Longrightarrow> \<exists>k x. j \<le> k \<and> q = parent @ [k] @ x"
proof (induction r p grp and rs parent j grp arbitrary: q g and q g rule: ing_rows_ing_rows_list.induct)
  case (1 a b c d e ks p grp)
  then show ?case by (fastforce split: if_splits)
next
  case (2 parent j grp)
  then show ?case by simp
next
  case (3 r rs parent j grp)
  from 3(3) consider "(q, g) \<in> set (ing_rows r (parent @ [j]) grp)"
    | "(q, g) \<in> set (ing_rows_list rs parent (Suc j) grp)" by auto
  then show ?case
  proof cases
    case 1
    from 3(1) [OF this] obtain x where "q = (parent @ [j]) @ x" by blast
    then show ?thesis by (intro exI [of _ j] exI [of _ x]) simp
  next
    case 2
    from 3(2) [OF this] obtain k x where "Suc j \<le> k" "q = parent @ [k] @ x" by blast
    then show ?thesis by (intro exI [of _ k] exI [of _ x]) simp
  qed
qed

lemma agrees_set_value:
  "\<forall>x. q \<noteq> p @ x \<Longrightarrow> n \<le> 4 \<Longrightarrow> agrees (set_value t q n v) p r = agrees t p r"
  "\<forall>k x. j \<le> k \<longrightarrow> q \<noteq> parent @ [k] @ x \<Longrightarrow> n \<le> 4 \<Longrightarrow>
     agrees_list (set_value t q n v) parent j rs = agrees_list t parent j rs"
proof (induction t p r and t parent j rs rule: agrees_agrees_list.induct)
  case (1 t p a b c d e ks)
  have "q \<noteq> p" using 1(2) [rule_format, of "[]"] by simp
  moreover have "\<forall>k x. 0 \<le> k \<longrightarrow> q \<noteq> p @ [k] @ x" using 1(2) by auto
  ultimately show ?case using 1(1) 1(3) by (simp add: get_value_set_value)
next
  case (2 t parent j)
  show ?case by simp
next
  case (3 t parent j r rs)
  have a: "\<forall>x. q \<noteq> (parent @ [j]) @ x" using 3(3) [rule_format, of j] by auto
  have b: "\<forall>k x. Suc j \<le> k \<longrightarrow> q \<noteq> parent @ [k] @ x" using 3(3) by auto
  from 3(1) [OF a 3(4)] 3(2) [OF b 3(4)] show ?case by simp
qed

lemma dict_set_not_Nil: "dict_set d k v \<noteq> []"
  by (induction d k v rule: dict_set.induct) auto

lemma dict_get_dict_set: "dict_get (dict_set d k v) k' = (if k' = k then v else dict_get d k')"
  by (induction d k v rule: dict_set.induct) (auto simp: dict_get_def)

lemma dict_get_dict_del: "dict_get (dict_del d k) k' = (if k' = k then VNone else dict_get d k')"
  by (induction d) (auto simp: dict_get_def dict_del_def)

lemma commit_dict_not_Nil: "commit_dict ext t p pos g = Inr d5 \<Longrightarrow> d5 \<noteq> []"
  by (auto simp: commit_dict_def Let_def dict_set_not_Nil split: sum.splits option.splits if_splits)

lemma commit_row_new:
  assumes "is_new (get_value (imodel s) p 0)"
  shows "commit_row ext rid p pos g (s, del) =
     (case commit_dict ext (imodel s) p pos g of
        Inl e \<Rightarrow> Inl e
      | Inr d5 \<Rightarrow>
          Inr (s\<lparr>rd_calls := rd_calls s @ [Add_ing (dict_set d5 ''recipe_id'' rid)],
                 commited_items_converter :=
                   dict_set (commited_items_converter s) (get_value (imodel s) p 0)
                     (add_ing_and_update_keydic ext (rd_calls s) (dict_set d5 ''recipe_id'' rid)),
                 imodel := set_value (imodel s) p 0
                     (add_ing_and_update_keydic ext (rd_calls s) (dict_set d5 ''recipe_id'' rid)),
                 ingredient_objects := ingredient_objects s @
                     [add_ing_and_update_keydic ext (rd_calls s) (dict_set d5 ''recipe_id'' rid)]\<rparr>,
               del))"
  using assms by (simp add: commit_row_def is_new_def Let_def split: sum.splits)

lemma commit_row_old:
  assumes "\<not> is_new (get_value (imodel s) p 0)"
  shows "commit_row ext rid p pos g (s, del) =
     (case commit_dict ext (imodel s) p pos g of
        Inl e \<Rightarrow> Inl e
      | Inr d5 \<Rightarrow>
          (case getattr (get_value (imodel s) p 0) ''deleted'' of
             None \<Rightarrow> Inl AttributeError
           | Some dl \<Rightarrow>
               Inr (s\<lparr>rd_calls := rd_calls s @
                        [Modify_ing (get_value (imodel s) p 0)
                           (old_dict d5 (get_value (imodel s) p 0 \<in> set del) dl)]\<rparr>,
                    remove1 (get_value (imodel s) p 0) del)))"
proof (cases "commit_dict ext (imodel s) p pos g")
  case (Inl e)
  then show ?thesis by (simp add: commit_row_def Let_def)
next
  case (Inr d5)
  have ne: "d5 \<noteq> []" by (rule commit_dict_not_Nil [OF Inr])
  show ?thesis using assms Inr ne
    by (auto simp: commit_row_def is_new_def Let_def commit_atts_kept old_dict_def remove1_idem
             dict_set_not_Nil split: option.splits)
qed

lemma commit_row_tree:
  assumes "commit_row ext rid p pos g st = Inr st'"
  shows "imodel (fst st') = imodel (fst st) \<or> (\<exists>v. imodel (fst st') = set_value (imodel (fst st)) p 0 v)"
proof (cases "is_new (get_value (imodel (fst st)) p 0)")
  case True
  from commit_row_new [OF True, of ext rid pos g "snd st"] assms show ?thesis
    by (auto split: sum.splits)
next
  case False
  from commit_row_old [OF False, of ext rid pos g "snd st"] assms show ?thesis
    by (auto split: sum.splits option.splits)
qed

lemma commit_row_frame:
  assumes "commit_row ext rid p pos g st = Inr st'" and "q \<noteq> p" and "m \<le> 4"
  shows "get_value (imodel (fst st')) q m = get_value (imodel (fst st)) q m"
  using commit_row_tree [OF assms(1)] assms(2,3) by (auto simp: get_value_set_value)

lemma commit_row_valid:
  assumes "commit_row ext rid p pos g st = Inr st'"
  shows "get_row (imodel (fst st')) q = None \<longleftrightarrow> get_row (imodel (fst st)) q = None"
  using commit_row_tree [OF assms(1)] by (auto simp: get_row_set_value_None)

lemma commit_list_agrees:
  assumes "commit_list ext rid xs pos st = Inr (st', pos')"
    and "\<forall>(q, g) \<in> set xs. \<forall>k x. j \<le> k \<longrightarrow> q \<noteq> parent @ [k] @ x"
  shows "agrees_list (imodel (fst st')) parent j rs = agrees_list (imodel (fst st)) parent j rs"
  using assms
proof (induction xs arbitrary: pos st)
  case Nil
  then show ?case by simp
next
  case (Cons x xs)
  obtain p g where x: "x = (p, g)" by (cases x)
  from Cons.prems(1) x obtain st1 where
    r: "commit_row ext rid p pos g st = Inr st1" and
    l: "commit_list ext rid xs (pos + 1) st1 = Inr (st', pos')"
    by (auto split: sum.splits)
  from Cons.prems(2) x have np: "\<forall>k x. j \<le> k \<longrightarrow> p \<noteq> parent @ [k] @ x" by auto
  have "agrees_list (imodel (fst st1)) parent j rs = agrees_list (imodel (fst st)) parent j rs"
    using commit_row_tree [OF r] agrees_set_value(2) [OF np, of 0] by auto
  moreover have "agrees_list (imodel (fst st')) parent j rs = agrees_list (imodel (fst st1)) parent j rs"
    using Cons.IH [OF l] Cons.prems(2) by auto
  ultimately show ?case by simp
qed

lemma commit_as_list:
  "agrees (imodel (fst st)) p r \<Longrightarrow>
     commit_iter ext rid r p pos g st = commit_list ext rid (ing_rows r p g) pos st"
  "agrees_list (imodel (fst st)) parent j rs \<Longrightarrow>
     commit_rows ext rid rs parent j pos g st = commit_list ext rid (ing_rows_list rs parent j g) pos st"
proof (induction ext rid r p pos g st and ext rid rs parent j pos g st
       rule: commit_iter_commit_rows.induct)
  case (1 ext rid a b c d e ks iter pos g st)
  from 1(2) have a: "get_value (imodel (fst st)) iter 0 = a"
    and b: "get_value (imodel (fst st)) iter 1 = b"
    and ks: "agrees_list (imodel (fst st)) iter 0 ks" by simp_all
  show ?case
  proof (cases "is_str a")
    case True
    with 1(1) [OF _ _ ks] a b show ?thesis by simp
  next
    case False
    with a show ?thesis by (simp split: sum.splits)
  qed
next
  case (2 ext rid parent j pos g st)
  show ?case by simp
next
  case (3 ext rid r rs parent j pos g st)
  from 3(3) have r: "agrees (imodel (fst st)) (parent @ [j]) r"
    and rs: "agrees_list (imodel (fst st)) parent (Suc j) rs" by simp_all
  note first = 3(1) [OF r]
  show ?case
  proof (cases "commit_list ext rid (ing_rows r (parent @ [j]) g) pos st")
    case (Inl e)
    with first show ?thesis by (simp add: commit_list_append)
  next
    case (Inr res)
    obtain st1 pos1 where res: "res = (st1, pos1)" by (cases res)
    have "\<forall>(q, g') \<in> set (ing_rows r (parent @ [j]) g). \<forall>k x. Suc j \<le> k \<longrightarrow> q \<noteq> parent @ [k] @ x"
    proof (clarify)
      fix g' k x
      assume "(parent @ [k] @ x, g') \<in> set (ing_rows r (parent @ [j]) g)" and k: "Suc j \<le> k"
      from ing_rows_prefix(1) [OF this(1)] obtain y where "parent @ [k] @ x = (parent @ [j]) @ y"
        by blast
      with k show False by simp
    qed
    from commit_list_agrees [OF Inr [unfolded res] this, of rs] rs
    have rs1: "agrees_list (imodel (fst st1)) parent (Suc j) rs" by simp
    from first Inr res have ci: "commit_iter ext rid r (parent @ [j]) pos g st = Inr (st1, pos1)"
      by simp
    from 3(2) [OF ci refl rs1] ci Inr res show ?thesis
      by (simp add: commit_list_append)
  qed
qed

lemma agrees_self:
  "get_row t p = Some r \<Longrightarrow> agrees t p r"
  "\<forall>k < length rs. get_row t (parent @ [j + k]) = Some (rs ! k) \<Longrightarrow> agrees_list t parent j rs"
proof (induction t p r and t parent j rs rule: agrees_agrees_list.induct)
  case (1 t p a b c d e ks)
  have "\<forall>k < length ks. get_row t (p @ [0 + k]) = Some (ks ! k)"
    using get_row_snoc [OF 1(2)] by simp
  from 1(1) [OF this] 1(2) show ?case by (simp add: get_value_def cell_def)
next
  case (2 t parent j)
  show ?case by simp
next
  case (3 t parent j r rs)
  from 3(3) [rule_format, of 0] have "get_row t (parent @ [j]) = Some r" by simp
  moreover have "\<forall>k < length rs. get_row t (parent @ [Suc j + k]) = Some (rs ! k)"
    using 3(3) [rule_format, of "Suc k" for k] by simp
  ultimately show ?case using 3(1,2) by simp
qed

lemma commit_ingredients_as_list:
  "commit_ingredients ext rid s =
     (case commit_list ext rid (ingredient_rows (imodel s)) 0 (s, ingredient_objects s) of
        Inl e \<Rightarrow> Inl e
      | Inr ((s1, deleted), n) \<Rightarrow>
          Inr (s1\<lparr>ingredient_objects := fold remove1 deleted (ingredient_objects s1),
                  rd_calls := rd_calls s1 @ [Modify_ings deleted [(''deleted'', VBool True)]]\<rparr>))"
proof -
  have "agrees_list (imodel s) [] 0 (imodel s)"
    by (rule agrees_self(2)) simp
  then have "commit_rows ext rid (imodel s) [] 0 0 VNone (s, ingredient_objects s) =
      commit_list ext rid (ing_rows_list (imodel s) [] 0 VNone) 0 (s, ingredient_objects s)"
    by (intro commit_as_list(2)) simp
  then show ?thesis by (simp add: commit_ingredients_def ingredient_rows_def)
qed


lemma ing_rows_distinct:
  "distinct (map fst (ing_rows r p g))"
  "distinct (map fst (ing_rows_list rs parent j g))"
proof (induction r p g and rs parent j g rule: ing_rows_ing_rows_list.induct)
  case (1 a b c d e ks p grp)
  then show ?case by simp
next
  case (2 parent j grp)
  show ?case by simp
next
  case (3 r rs parent j grp)
  have "fst ` set (ing_rows r (parent @ [j]) grp) \<inter> fst ` set (ing_rows_list rs parent (Suc j) grp) = {}"
  proof (rule ccontr)
    assume "\<not> ?thesis"
    then obtain q g1 g2 where a: "(q, g1) \<in> set (ing_rows r (parent @ [j]) grp)"
      and b: "(q, g2) \<in> set (ing_rows_list rs parent (Suc j) grp)" by force
    from ing_rows_prefix(1) [OF a] obtain x where x: "q = (parent @ [j]) @ x" by blast
    from ing_rows_prefix(2) [OF b] obtain k y where "Suc j \<le> k" "q = parent @ [k] @ y" by blast
    with x show False by simp
  qed
  with 3 show ?case by simp
qed

lemma ing_rows_valid:
  "get_row t p = Some r \<Longrightarrow> (q, g') \<in> set (ing_rows r p g) \<Longrightarrow> get_row t q \<noteq> None"
  "\<forall>k < length rs. get_row t (parent @ [j + k]) = Some (rs ! k) \<Longrightarrow>
     (q, g') \<in> set (ing_rows_list rs parent j g) \<Longrightarrow> get_row t q \<noteq> None"
proof (induction r p g and rs parent j g arbitrary: q g' and q g' rule: ing_rows_ing_rows_list.induct)
  case (1 a b c d e ks p grp)
  show ?case
  proof (cases "is_str a")
    case True
    have "\<forall>k < length ks. get_row t (p @ [0 + k]) = Some (ks ! k)"
      using get_row_snoc [OF 1(2)] by simp
    from 1(1) [OF True this] 1(3) True show ?thesis by simp
  next
    case False
    with 1(2,3) show ?thesis by simp
  qed
next
  case (2 parent j grp)
  then show ?case by simp
next
  case (3 r rs parent j grp)
  from 3(3) [rule_format, of 0] have r: "get_row t (parent @ [j]) = Some r" by simp
  have rs: "\<forall>k < length rs. get_row t (parent @ [Suc j + k]) = Some (rs ! k)"
    using 3(3) [rule_format, of "Suc k" for k] by simp
  from 3(4) consider "(q, g') \<in> set (ing_rows r (parent @ [j]) grp)"
    | "(q, g') \<in> set (ing_rows_list rs parent (Suc j) grp)" by auto
  then show ?case
  proof cases
    case 1
    from 3(1) [OF r 1] show ?thesis .
  next
    case 2
    from 3(2) [OF rs 2] show ?thesis .
  qed
qed

lemma untouched_ingredient_rows: "untouched t t (ingredient_rows t)"
proof -
  have "\<forall>k < length t. get_row t ([] @ [0 + k]) = Some (t ! k)" by simp
  from ing_rows_valid(2) [OF this] ing_rows_distinct(2) [of t "[]" 0 VNone]
  show ?thesis by (auto simp: untouched_def ingredient_rows_def)
qed

lemma untouched_step:
  assumes "untouched t (imodel (fst st)) ((p, g) # xs)"
    and "commit_row ext rid p pos g st = Inr st1"
  shows "untouched t (imodel (fst st1)) xs"
proof -
  from assms(1) have d: "distinct (map fst xs)" and np: "p \<notin> fst ` set xs"
    by (auto simp: untouched_def)
  have "\<forall>(q, g') \<in> set xs. get_row (imodel (fst st1)) q \<noteq> None \<and>
          (\<forall>m \<le> 4. get_value (imodel (fst st1)) q m = get_value t q m)"
  proof (clarify, intro conjI allI impI)
    fix q g' assume m: "(q, g') \<in> set xs"
    with assms(1) have v: "get_row (imodel (fst st)) q \<noteq> None"
      and c: "\<forall>m \<le> 4. get_value (imodel (fst st)) q m = get_value t q m"
      by (auto simp: untouched_def)
    from m np have qp: "q \<noteq> p" by force
    show "get_row (imodel (fst st1)) q \<noteq> None"
      using v commit_row_valid [OF assms(2), of q] by simp
    fix m :: nat assume "m \<le> 4"
    with c commit_row_frame [OF assms(2) qp] show "get_value (imodel (fst st1)) q m = get_value t q m"
      by simp
  qed
  with d show ?thesis by (simp add: untouched_def)
qed

lemma untouched_head:
  assumes "untouched t t' ((p, g) # xs)"
  shows "get_row t' p \<noteq> None" "get_value t' p 0 = get_value t p 0"
    "commit_dict ext t' p pos g = commit_dict ext t p pos g" "p \<notin> fst ` set xs"
proof -
  from assms have c: "\<forall>m \<le> 4. get_value t' p m = get_value t p m" by (simp add: untouched_def)
  then have "get_value t' p 0 = get_value t p 0" "get_value t' p 1 = get_value t p 1"
    "get_value t' p 2 = get_value t p 2" "get_value t' p 3 = get_value t p 3"
    "get_value t' p 4 = get_value t p 4" by simp_all
  then show "commit_dict ext t' p pos g = commit_dict ext t p pos g"
    by (simp add: commit_dict_def get_rowdict_def)
  from c show "get_value t' p 0 = get_value t p 0" by simp
  from assms show "get_row t' p \<noteq> None" "p \<notin> fst ` set xs" by (auto simp: untouched_def)
qed

lemma commit_list_frame:
  assumes "commit_list ext rid xs pos st = Inr (st', pos')"
  shows "q \<notin> fst ` set xs \<Longrightarrow> m \<le> 4 \<Longrightarrow>
           get_value (imodel (fst st')) q m = get_value (imodel (fst st)) q m"
    and "get_row (imodel (fst st')) q = None \<longleftrightarrow> get_row (imodel (fst st)) q = None"
    and "pos' = pos + int (length xs)"
    and "\<exists>calls. rd_calls (fst st') = rd_calls (fst st) @ calls \<and> length calls = length xs"
    and "\<exists>news. ingredient_objects (fst st') = ingredient_objects (fst st) @ news"
  using assms
proof (induction xs arbitrary: pos st)
  case Nil
  { case 1 then show ?case by simp }
  { case 2 then show ?case by simp }
  { case 3 then show ?case by simp }
  { case 4 then show ?case by simp }
  { case 5 then show ?case by simp }
next
  case (Cons x xs)
  obtain p g where x: "x = (p, g)" by (cases x)
  { case 1
    from 1(3) x obtain st1 where
      r: "commit_row ext rid p pos g st = Inr st1" and
      l: "commit_list ext rid xs (pos + 1) st1 = Inr (st', pos')"
      by (auto split: sum.splits)
    from 1(1) x have "q \<noteq> p" "q \<notin> fst ` set xs" by auto
    with Cons.IH(1) [OF _ 1(2) l] commit_row_frame [OF r _ 1(2)] show ?case by simp }
  { case 2
    from 2 x obtain st1 where
      r: "commit_row ext rid p pos g st = Inr st1" and
      l: "commit_list ext rid xs (pos + 1) st1 = Inr (st', pos')"
      by (auto split: sum.splits)
    from Cons.IH(2) [OF l] commit_row_valid [OF r] show ?case by simp }
  { case 3
    from 3 x obtain st1 where
      l: "commit_list ext rid xs (pos + 1) st1 = Inr (st', pos')"
      by (auto split: sum.splits)
    from Cons.IH(3) [OF l] show ?case by simp }
  { case 4
    from 4 x obtain st1 where
      r: "commit_row ext rid p pos g st = Inr st1" and
      l: "commit_list ext rid xs (pos + 1) st1 = Inr (st', pos')"
      by (auto split: sum.splits)
    have "\<exists>c. rd_calls (fst st1) = rd_calls (fst st) @ [c]"
    proof (cases "is_new (get_value (imodel (fst st)) p 0)")
      case True
      from commit_row_new [OF True, of ext rid pos g "snd st"] r show ?thesis
        by (auto split: sum.splits)
    next
      case False
      from commit_row_old [OF False, of ext rid pos g "snd st"] r show ?thesis
        by (auto split: sum.splits option.splits)
    qed
    then obtain c where c: "rd_calls (fst st1) = rd_calls (fst st) @ [c]" by blast
    from Cons.IH(4) [OF l] obtain calls where
      "rd_calls (fst st') = rd_calls (fst st1) @ calls" "length calls = length xs" by blast
    with c have "rd_calls (fst st') = rd_calls (fst st) @ (c # calls) \<and>
        length (c # calls) = length (x # xs)" by simp
    then show ?case by blast }
  { case 5
    from 5 x obtain st1 where
      r: "commit_row ext rid p pos g st = Inr st1" and
      l: "commit_list ext rid xs (pos + 1) st1 = Inr (st', pos')"
      by (auto split: sum.splits)
    have "\<exists>n1. ingredient_objects (fst st1) = ingredient_objects (fst st) @ n1"
    proof (cases "is_new (get_value (imodel (fst st)) p 0)")
      case True
      from commit_row_new [OF True, of ext rid pos g "snd st"] r show ?thesis
        by (auto split: sum.splits)
    next
      case False
      from commit_row_old [OF False, of ext rid pos g "snd st"] r show ?thesis
        by (auto split: sum.splits option.splits)
    qed
    then obtain n1 where n1: "ingredient_objects (fst st1) = ingredient_objects (fst st) @ n1"
      by blast
    from Cons.IH(5) [OF l] obtain n2 where
      "ingredient_objects (fst st') = ingredient_objects (fst st1) @ n2" by blast
    with n1 have "ingredient_objects (fst st') = ingredient_objects (fst st) @ (n1 @ n2)" by simp
    then show ?case by blast }
qed

subsection \<open>Positions\<close>

lemma dict_get_item_key: "k \<noteq> ''ingkey'' \<Longrightarrow> dict_get (item_key d) k = dict_get d k"
  by (auto simp: item_key_def dict_get_dict_set split: pyval.splits)

lemma dict_get_get_extra:
  "k \<noteq> ''ingkey'' \<Longrightarrow> dict_get (get_extra_ingredient_attributes v d) k = dict_get d k"
  by (simp add: get_extra_ingredient_attributes_def dict_get_item_key dict_get_dict_set
           split: option.split)

lemma get_rowdict_cells:
  "dict_get (get_rowdict t p) ''amount'' = get_value t p 1"
  "dict_get (get_rowdict t p) ''unit'' = get_value t p 2"
  "dict_get (get_rowdict t p) ''item'' = get_value t p 3"
  "dict_get (get_rowdict t p) ''optional'' = get_value t p 4"
  by (simp_all add: get_rowdict_def dict_get_get_extra) (simp_all add: dict_get_def)

lemma commit_dict_cells:
  assumes "commit_dict ext t p pos g = Inr d5"
  shows "dict_get d5 ''position'' = VInt pos" "dict_get d5 ''inggroup'' = g"
    "dict_get d5 ''item'' = get_value t p 3" "dict_get d5 ''unit'' = get_value t p 2"
    "dict_get d5 ''optional'' = get_value t p 4"
proof -
  let ?d0 = "get_rowdict t p"
  let ?a = "if truthy (dict_get ?d0 ''amount'')
            then (case parse_range ext (dict_get ?d0 ''amount'') of
                    None \<Rightarrow> Inl ParseError
                  | Some (amt, rangeamount) \<Rightarrow>
                      Inr (if truthy rangeamount
                           then dict_set (dict_set ?d0 ''amount'' amt) ''rangeamount'' rangeamount
                           else dict_set ?d0 ''amount'' amt))
            else Inr (dict_set ?d0 ''amount'' VNone)"
  from assms obtain d1 where a: "?a = Inr d1"
    and d5: "d5 = (let d2 = (if dict_has d1 ''shop_cat'' then dict_del d1 ''shop_cat'' else d1);
                       d3 = dict_set d2 ''position'' (VInt pos);
                       d4 = dict_set d3 ''inggroup'' g
                   in if is_RecRef (get_value t p 0)
                      then dict_set d4 ''refid''
                             (case getattr (get_value t p 0) ''refid'' of Some r \<Rightarrow> r | None \<Rightarrow> VNone)
                      else d4)"
    unfolding commit_dict_def Let_def by (cases ?a) simp_all
  have d1: "\<And>k. k \<noteq> ''amount'' \<Longrightarrow> k \<noteq> ''rangeamount'' \<Longrightarrow> dict_get d1 k = dict_get ?d0 k"
    using a by (auto simp: dict_get_dict_set split: if_splits option.splits)
  have d5': "\<And>k. k \<noteq> ''position'' \<Longrightarrow> k \<noteq> ''inggroup'' \<Longrightarrow> k \<noteq> ''refid'' \<Longrightarrow>
               k \<noteq> ''shop_cat'' \<Longrightarrow> dict_get d5 k = dict_get d1 k"
    unfolding d5 Let_def by (simp add: dict_get_dict_set dict_get_dict_del)
  show "dict_get d5 ''position'' = VInt pos" "dict_get d5 ''inggroup'' = g"
    unfolding d5 Let_def by (simp_all add: dict_get_dict_set)
  show "dict_get d5 ''item'' = get_value t p 3" "dict_get d5 ''unit'' = get_value t p 2"
    "dict_get d5 ''optional'' = get_value t p 4"
    by (simp_all add: d5' d1 get_rowdict_cells)
qed

lemma commit_row_call:
  assumes r: "commit_row ext rid p pos g st = Inr st1"
  shows "\<exists>c. rd_calls (fst st1) = rd_calls (fst st) @ [c] \<and>
             call_summary c = (VInt pos, g, get_value (imodel (fst st)) p 3,
                               get_value (imodel (fst st)) p 2)"
proof (cases "is_new (get_value (imodel (fst st)) p 0)")
  case True
  from commit_row_new [OF True, of ext rid pos g "snd st"] r
  obtain d5 where d5: "commit_dict ext (imodel (fst st)) p pos g = Inr d5"
    and c: "rd_calls (fst st1) = rd_calls (fst st) @ [Add_ing (dict_set d5 ''recipe_id'' rid)]"
    by (auto split: sum.splits)
  have "call_summary (Add_ing (dict_set d5 ''recipe_id'' rid)) =
      (VInt pos, g, get_value (imodel (fst st)) p 3, get_value (imodel (fst st)) p 2)"
    using commit_dict_cells [OF d5] by (simp add: call_summary_def call_dict_def dict_get_dict_set)
  with c show ?thesis by blast
next
  case False
  from commit_row_old [OF False, of ext rid pos g "snd st"] r
  obtain d5 dl where d5: "commit_dict ext (imodel (fst st)) p pos g = Inr d5"
    and c: "rd_calls (fst st1) = rd_calls (fst st) @
        [Modify_ing (get_value (imodel (fst st)) p 0)
           (old_dict d5 (get_value (imodel (fst st)) p 0 \<in> set (snd st)) dl)]"
    by (auto split: sum.splits option.splits)
  have "call_summary (Modify_ing (get_value (imodel (fst st)) p 0)
           (old_dict d5 (get_value (imodel (fst st)) p 0 \<in> set (snd st)) dl)) =
      (VInt pos, g, get_value (imodel (fst st)) p 3, get_value (imodel (fst st)) p 2)"
    using commit_dict_cells [OF d5]
    by (simp add: call_summary_def call_dict_def old_dict_def Let_def dict_get_dict_set)
  with c show ?thesis by blast
qed

lemma commit_list_calls:
  assumes "commit_list ext rid xs (int n) st = Inr (st', pos')"
    and "untouched t (imodel (fst st)) xs"
  shows "\<exists>calls. rd_calls (fst st') = rd_calls (fst st) @ calls \<and>
           map call_summary calls = map (\<lambda>(k, x). row_summary t k x) (enumerate n xs)"
  using assms
proof (induction xs arbitrary: n st)
  case Nil
  then show ?case by simp
next
  case (Cons x xs)
  obtain p g where x: "x = (p, g)" by (cases x)
  from Cons.prems(1) x obtain st1 where
    r: "commit_row ext rid p (int n) g st = Inr st1" and
    l: "commit_list ext rid xs (int (Suc n)) st1 = Inr (st', pos')"
    by (auto split: sum.splits simp: add.commute)
  from Cons.prems(2) x have u: "untouched t (imodel (fst st)) ((p, g) # xs)" by simp
  from commit_row_call [OF r] obtain c where
    c: "rd_calls (fst st1) = rd_calls (fst st) @ [c]"
    and cs: "call_summary c = (VInt (int n), g, get_value (imodel (fst st)) p 3,
                               get_value (imodel (fst st)) p 2)" by blast
  from u have "get_value (imodel (fst st)) p 3 = get_value t p 3"
    "get_value (imodel (fst st)) p 2 = get_value t p 2" by (simp_all add: untouched_def)
  with cs have cs': "call_summary c = row_summary t n (p, g)" by (simp add: row_summary_def)
  from Cons.IH [OF l untouched_step [OF u r]] obtain calls where
    "rd_calls (fst st') = rd_calls (fst st1) @ calls"
    "map call_summary calls = map (\<lambda>(k, x). row_summary t k x) (enumerate (Suc n) xs)" by blast
  with c cs' x have "rd_calls (fst st') = rd_calls (fst st) @ (c # calls) \<and>
     map call_summary (c # calls) = map (\<lambda>(k, x). row_summary t k x) (enumerate n (x # xs))"
    by simp
  then show ?case by blast
qed

text \<open>
  C7. The calls a commit makes for the ingredient rows come in the order of the
  depth-first traversal (groups are entered, they get no call and use no index), and
  the call for the row of index \<open>k\<close> carries \<^verbatim>\<open>position = k\<close>, the name of the row's
  group and the row's item and unit: the positions written are 0, 1, ..., n - 1 in
  display order. The last call is the \<^verbatim>\<open>modify_ings\<close> of the deleted objects.
\<close>

theorem commit_positions:
  assumes "commit_ingredients ext rid s = Inr s'"
  shows "\<exists>calls deleted.
           rd_calls s' = rd_calls s @ calls @ [Modify_ings deleted [(''deleted'', VBool True)]] \<and>
           map call_summary calls =
             map (\<lambda>(k, x). row_summary (imodel s) k x) (enumerate 0 (ingredient_rows (imodel s)))"
proof -
  from assms obtain s1 deleted n where
    l: "commit_list ext rid (ingredient_rows (imodel s)) (int 0) (s, ingredient_objects s)
          = Inr ((s1, deleted), n)"
    and s': "s' = s1\<lparr>ingredient_objects := fold remove1 deleted (ingredient_objects s1),
                  rd_calls := rd_calls s1 @ [Modify_ings deleted [(''deleted'', VBool True)]]\<rparr>"
    by (auto simp: commit_ingredients_as_list split: sum.splits)
  from commit_list_calls [OF l, of "imodel s"] untouched_ingredient_rows [of "imodel s"]
  obtain calls where "rd_calls s1 = rd_calls s @ calls"
    "map call_summary calls =
       map (\<lambda>(k, x). row_summary (imodel s) k x) (enumerate 0 (ingredient_rows (imodel s)))"
    by auto
  with s' show ?thesis by auto
qed

subsection \<open>Positions on the pantry\<close>

lemma pantry_commit: "commit_ingredients sample_ext (VInt 3) pantry = Inr pantry_committed"
  unfolding pantry_committed_def by code_simp

theorem commit_positions_witness:
  "commit_ingredients sample_ext (VInt 3) pantry = Inr pantry_committed \<and>
   (\<exists>calls deleted.
      rd_calls pantry_committed =
        rd_calls pantry @ calls @ [Modify_ings deleted [(''deleted'', VBool True)]] \<and>
      map call_summary calls =
        [(VInt 0, VStr ''sauce'', VStr ''milk'', VStr ''cup''),
         (VInt 1, VStr ''sauce'', VStr ''butter'', VStr ''tbsp''),
         (VInt 2, VNone, VStr ''eggs'', VNone)])"
proof -
  have e: "map (\<lambda>(k, x). row_summary (imodel pantry) k x)
             (enumerate 0 (ingredient_rows (imodel pantry))) =
           [(VInt 0, VStr ''sauce'', VStr ''milk'', VStr ''cup''),
            (VInt 1, VStr ''sauce'', VStr ''butter'', VStr ''tbsp''),
            (VInt 2, VNone, VStr ''eggs'', VNone)]"
    by code_simp
  from commit_positions [OF pantry_commit] pantry_commit show ?thesis
    unfolding e by blast
qed

subsection \<open>Deleted ingredients\<close>

lemma commit_list_deleted:
  assumes "commit_list ext rid xs pos st = Inr (st', pos')"
    and "untouched t (imodel (fst st)) xs" and "distinct (snd st)"
  shows "snd st' =
     filter (\<lambda>ob. ob \<notin> set (filter (\<lambda>v. \<not> is_new v) (map (\<lambda>x. get_value t (fst x) 0) xs)))
       (snd st)"
  using assms
proof (induction xs arbitrary: pos st)
  case Nil
  then show ?case by simp
next
  case (Cons x xs)
  obtain p g where x: "x = (p, g)" by (cases x)
  from Cons.prems(1) x obtain st1 where
    r: "commit_row ext rid p pos g st = Inr st1" and
    l: "commit_list ext rid xs (pos + 1) st1 = Inr (st', pos')"
    by (auto split: sum.splits)
  from Cons.prems(2) x have u: "untouched t (imodel (fst st)) ((p, g) # xs)" by simp
  note v = untouched_head(2) [OF u]
  note u1 = untouched_step [OF u r]
  show ?case
  proof (cases "is_new (get_value t p 0)")
    case True
    with v have "is_new (get_value (imodel (fst st)) p 0)" by simp
    from commit_row_new [OF this, of ext rid pos g "snd st"] r have "snd st1 = snd st"
      by (auto split: sum.splits)
    with Cons.IH [OF l u1] Cons.prems(3) True x show ?thesis by simp
  next
    case False
    with v have "\<not> is_new (get_value (imodel (fst st)) p 0)" by simp
    from commit_row_old [OF this, of ext rid pos g "snd st"] r v
    have d1: "snd st1 = remove1 (get_value t p 0) (snd st)"
      by (auto split: sum.splits option.splits)
    with Cons.prems(3) have "distinct (snd st1)" by simp
    from Cons.IH [OF l u1 this] d1 Cons.prems(3) False x show ?thesis
      by (auto simp: distinct_remove1_removeAll removeAll_filter_not_eq intro!: filter_cong)
  qed
qed

lemma commit_list_news:
  assumes "commit_list ext rid xs pos st = Inr (st', pos')"
    and "untouched t (imodel (fst st)) xs"
  shows "ingredient_objects (fst st') =
     ingredient_objects (fst st) @
       map (\<lambda>x. get_value (imodel (fst st')) (fst x) 0)
         (filter (\<lambda>x. is_new (get_value t (fst x) 0)) xs)"
  using assms
proof (induction xs arbitrary: pos st)
  case Nil
  then show ?case by simp
next
  case (Cons x xs)
  obtain p g where x: "x = (p, g)" by (cases x)
  from Cons.prems(1) x obtain st1 where
    r: "commit_row ext rid p pos g st = Inr st1" and
    l: "commit_list ext rid xs (pos + 1) st1 = Inr (st', pos')"
    by (auto split: sum.splits)
  from Cons.prems(2) x have u: "untouched t (imodel (fst st)) ((p, g) # xs)" by simp
  note v = untouched_head(2) [OF u]
  note u1 = untouched_step [OF u r]
  show ?case
  proof (cases "is_new (get_value t p 0)")
    case True
    with v have n: "is_new (get_value (imodel (fst st)) p 0)" by simp
    from commit_row_new [OF n, of ext rid pos g "snd st"] r obtain obj where
      o1: "ingredient_objects (fst st1) = ingredient_objects (fst st) @ [obj]"
      and t1: "imodel (fst st1) = set_value (imodel (fst st)) p 0 obj"
      by (auto split: sum.splits)
    have "get_value (imodel (fst st1)) p 0 = obj"
      using untouched_head(1) [OF u] by (simp add: t1 get_value_set_value)
    with commit_list_frame(1) [OF l untouched_head(4) [OF u], of 0]
    have "get_value (imodel (fst st')) p 0 = obj" by simp
    with Cons.IH [OF l u1] o1 True x show ?thesis by simp
  next
    case False
    with v have "\<not> is_new (get_value (imodel (fst st)) p 0)" by simp
    from commit_row_old [OF this, of ext rid pos g "snd st"] r
    have "ingredient_objects (fst st1) = ingredient_objects (fst st)"
      by (auto split: sum.splits option.splits)
    with Cons.IH [OF l u1] False x show ?thesis by simp
  qed
qed

lemma fold_remove1_subset:
  "distinct xs \<Longrightarrow> distinct ds \<Longrightarrow> set ds \<subseteq> set xs \<Longrightarrow>
   fold remove1 ds (xs @ ys) = filter (\<lambda>x. x \<notin> set ds) xs @ ys"
proof (induction ds arbitrary: xs)
  case Nil
  then show ?case by simp
next
  case (Cons d ds)
  from Cons.prems have d: "d \<in> set xs" "d \<notin> set ds" by auto
  have "fold remove1 (d # ds) (xs @ ys) = fold remove1 ds (remove1 d xs @ ys)"
    using d(1) by (simp add: remove1_append)
  also have "\<dots> = filter (\<lambda>x. x \<notin> set ds) (remove1 d xs) @ ys"
    using Cons.prems d by (intro Cons.IH) auto
  also have "filter (\<lambda>x. x \<notin> set ds) (remove1 d xs) = filter (\<lambda>x. x \<notin> set (d # ds)) xs"
    using Cons.prems(1)
    by (auto simp: distinct_remove1_removeAll removeAll_filter_not_eq intro!: filter_cong)
  finally show ?case .
qed

text \<open>
  C4. After a commit that returns, the last call to the store is \<^verbatim>\<open>modify_ings\<close>
  with \<^verbatim>\<open>{"deleted": True}\<close>, and its list holds exactly the objects that were
  tracked before the commit and are the object of no row of the tree; the tracked
  objects after the commit are the ones that do have a row, in their old order,
  followed by the objects the store returned for the new rows. The tracked objects are
  distinct, as they are when the tree is built from the database.
\<close>

theorem commit_deleted:
  assumes "commit_ingredients ext rid s = Inr s'" and "distinct (ingredient_objects s)"
  shows "\<exists>calls.
           length calls = length (ingredient_rows (imodel s)) \<and>
           rd_calls s' =
             rd_calls s @ calls @
               [Modify_ings
                  (filter (\<lambda>ob. ob \<notin> set (stored_objects (imodel s))) (ingredient_objects s))
                  [(''deleted'', VBool True)]] \<and>
           ingredient_objects s' =
             filter (\<lambda>ob. ob \<in> set (stored_objects (imodel s))) (ingredient_objects s) @
               map (\<lambda>x. get_value (imodel s') (fst x) 0) (new_rows (imodel s))"
proof -
  let ?X = "ingredient_rows (imodel s)"
  from assms(1) obtain s1 deleted n where
    l: "commit_list ext rid ?X 0 (s, ingredient_objects s) = Inr ((s1, deleted), n)"
    and s': "s' = s1\<lparr>ingredient_objects := fold remove1 deleted (ingredient_objects s1),
                  rd_calls := rd_calls s1 @ [Modify_ings deleted [(''deleted'', VBool True)]]\<rparr>"
    by (auto simp: commit_ingredients_as_list split: sum.splits)
  have u: "untouched (imodel s) (imodel (fst (s, ingredient_objects s))) ?X"
    using untouched_ingredient_rows [of "imodel s"] by simp
  from commit_list_deleted [OF l u] assms(2)
  have del: "deleted = filter (\<lambda>ob. ob \<notin> set (stored_objects (imodel s))) (ingredient_objects s)"
    by (simp add: stored_objects_def)
  from commit_list_news [OF l u]
  have news: "ingredient_objects s1 = ingredient_objects s @
      map (\<lambda>x. get_value (imodel s1) (fst x) 0) (new_rows (imodel s))"
    by (simp add: new_rows_def)
  from commit_list_frame(4) [OF l] obtain calls where
    calls: "rd_calls s1 = rd_calls s @ calls" "length calls = length ?X" by auto
  have "fold remove1 deleted (ingredient_objects s1) =
      filter (\<lambda>x. x \<notin> set deleted) (ingredient_objects s) @
        map (\<lambda>x. get_value (imodel s1) (fst x) 0) (new_rows (imodel s))"
    unfolding news using assms(2) by (intro fold_remove1_subset) (auto simp: del)
  moreover have "filter (\<lambda>x. x \<notin> set deleted) (ingredient_objects s) =
      filter (\<lambda>ob. ob \<in> set (stored_objects (imodel s))) (ingredient_objects s)"
    by (auto simp: del intro!: filter_cong)
  ultimately show ?thesis using calls s' del by auto
qed

subsection \<open>New rows\<close>




















subsection \<open>Deleted ingredients and new rows on sample trees\<close>

theorem commit_deleted_witness:
  "distinct (ingredient_objects pantry) \<and>
   (\<exists>calls. length calls = 3 \<and>
      rd_calls pantry_committed =
        rd_calls pantry @ calls @ [Modify_ings [flour] [(''deleted'', VBool True)]] \<and>
      ingredient_objects pantry_committed =
        butter # map (\<lambda>x. get_value (imodel pantry_committed) (fst x) 0)
                   [([0, 0], VStr ''sauce''), ([1], VNone)])"
proof -
  have d: "distinct (ingredient_objects pantry)" by code_simp
  have e1: "filter (\<lambda>ob. ob \<notin> set (stored_objects (imodel pantry))) (ingredient_objects pantry)
            = [flour]" by code_simp
  have e2: "filter (\<lambda>ob. ob \<in> set (stored_objects (imodel pantry))) (ingredient_objects pantry)
            = [butter]" by code_simp
  have e3: "new_rows (imodel pantry) = [([0, 0], VStr ''sauce''), ([1], VNone)]" by code_simp
  have e4: "length (ingredient_rows (imodel pantry)) = 3" by code_simp
  from commit_deleted [OF pantry_commit d] d show ?thesis
    unfolding e1 e2 e3 e4 by simp
qed


text \<open>
  The call for the milk of the pantry, the first ingredient row: the amount is the
  number read from the text "1", and the row is in the group "sauce".
\<close>

lemma pantry_new_row_call:
  "rd_calls pantry_committed ! 0 =
     Add_ing [(''amount'', VFloat 1), (''unit'', VStr ''cup''), (''item'', VStr ''milk''),
              (''optional'', VBool False), (''ingkey'', VStr ''milk''),
              (''position'', VInt 0), (''inggroup'', VStr ''sauce''),
              (''recipe_id'', VInt 3)]"
  unfolding pantry_committed_def by code_simp


subsection \<open>Ingredient rows and the rows of the tree\<close>

text \<open>
  When only groups have children, the traversal of the commit meets every row that is
  not a group: the objects of the ingredient rows are the column-0 values of the tree
  that are not strings, in display order.
\<close>

lemma ing_rows_values:
  "get_row t p = Some r \<Longrightarrow> only_groups_nest [r] \<Longrightarrow>
     map (\<lambda>x. get_value t (fst x) 0) (ing_rows r p g) = filter (\<lambda>v. \<not> is_str v) (col0s [r])"
  "\<forall>k < length rs. get_row t (parent @ [j + k]) = Some (rs ! k) \<Longrightarrow> only_groups_nest rs \<Longrightarrow>
     map (\<lambda>x. get_value t (fst x) 0) (ing_rows_list rs parent j g)
       = filter (\<lambda>v. \<not> is_str v) (col0s rs)"
proof (induction r p g and rs parent j g rule: ing_rows_ing_rows_list.induct)
  case (1 a b c d e ks p grp)
  show ?case
  proof (cases "is_str a")
    case True
    have "\<forall>k < length ks. get_row t (p @ [0 + k]) = Some (ks ! k)"
      using get_row_snoc [OF 1(2)] by simp
    from 1(1) [OF True this] 1(3) True show ?thesis by simp
  next
    case False
    with 1(3) have "ks = []" by simp
    with False 1(2) show ?thesis by (simp add: get_value_def cell_def)
  qed
next
  case (2 parent j grp)
  show ?case by simp
next
  case (3 r rs parent j grp)
  from 3(3) [rule_format, of 0] have r: "get_row t (parent @ [j]) = Some r" by simp
  have rs: "\<forall>k < length rs. get_row t (parent @ [Suc j + k]) = Some (rs ! k)"
    using 3(3) [rule_format, of "Suc k" for k] by simp
  from 3(4) have w: "only_groups_nest [r]" "only_groups_nest rs" by (cases r; simp)+
  have "col0s (r # rs) = col0s [r] @ col0s rs" using col0s_append [of "[r]" rs] by simp
  with 3(1) [OF r w(1)] 3(2) [OF rs w(2)] show ?case by simp
qed

lemma ingredient_rows_are_non_groups:
  assumes "only_groups_nest t"
  shows "map (\<lambda>x. get_value t (fst x) 0) (ingredient_rows t) = filter (\<lambda>v. \<not> is_str v) (col0s t)"
proof -
  have "\<forall>k < length t. get_row t ([] @ [0 + k]) = Some (t ! k)" by simp
  from ing_rows_values(2) [OF this assms] show ?thesis by (simp add: ingredient_rows_def)
qed

lemma stored_objects_all_rows:
  assumes "only_groups_nest t"
  shows "stored_objects t = filter (\<lambda>v. \<not> is_str v \<and> \<not> is_new v) (col0s t)"
  by (simp add: stored_objects_def ingredient_rows_are_non_groups [OF assms])

subsection \<open>The image box\<close>

text \<open>
  C10. \<^verbatim>\<open>ImageBox.commit\<close> returns the bytes of the image and of the thumbnail when an
  image is attached, and the pair \<^verbatim>\<open>(None, None)\<close> when none is.
\<close>

theorem commit_image_bytes:
  "fst (commit image_to_bytes box) =
     (case image_obj box of
        Some i \<Rightarrow> (Some (image_to_bytes (Some i)), Some (image_to_bytes (thumbnail box)))
      | None \<Rightarrow> (None, None))"
  by (simp add: commit_def split: option.split)

end
